theory Spec2Isabelle
  imports Complex_Main "HOL-Library.Product_Lexorder" "HOL-Library.Multiset"
begin

section \<open>Measurement mapping (measurementMapping.ts)\<close>

subsection \<open>JavaScript numbers, strings and truthiness\<close>

text \<open>
  A JavaScript \<open>number\<close> is a double. The functions below only compare numbers with
  each other and with the literals \<open>0.75\<close> and \<open>0.9\<close> and test them for truthiness, so
  a number is modelled by the real value it denotes, with \<open>NaN\<close> and the two infinities
  kept apart. A comparison with \<open>NaN\<close> is false; \<open>0\<close> and \<open>NaN\<close> are falsy. The literal
  \<open>0.9\<close> is the double nearest to nine tenths; it lies above nine tenths and the next double
  below it lies under: on doubles, comparing with the literal and comparing with the real
  \<open>9/10\<close> agree.
\<close>

datatype number = NaN | NegInf | Fin real | PosInf

fun num_less :: "number \<Rightarrow> number \<Rightarrow> bool" where
  "num_less NaN _ = False"
| "num_less _ NaN = False"
| "num_less NegInf NegInf = False"
| "num_less NegInf _ = True"
| "num_less (Fin x) (Fin y) = (x < y)"
| "num_less (Fin x) PosInf = True"
| "num_less (Fin x) NegInf = False"
| "num_less PosInf _ = False"

fun num_le :: "number \<Rightarrow> number \<Rightarrow> bool" where
  "num_le NaN _ = False"
| "num_le _ NaN = False"
| "num_le NegInf _ = True"
| "num_le (Fin x) (Fin y) = (x \<le> y)"
| "num_le (Fin x) PosInf = True"
| "num_le (Fin x) NegInf = False"
| "num_le PosInf PosInf = True"
| "num_le PosInf _ = False"

text \<open>\<open>a >= b\<close> in the source is \<open>num_le b a\<close>.\<close>

fun truthy :: "number \<Rightarrow> bool" where
  "truthy NaN = False"
| "truthy (Fin x) = (x \<noteq> 0)"
| "truthy _ = True"

text \<open>
  Names are modelled as strings of 8-bit characters; \<open>toLowerCase\<close> acts on the letters
  \<open>A\<close> to \<open>Z\<close>.
\<close>

definition lower_char :: "char \<Rightarrow> char" where
  "lower_char c =
     (let n = (of_char c :: nat) in if 65 \<le> n \<and> n \<le> 90 then char_of (n + 32) else c)"

definition upper_char :: "char \<Rightarrow> char" where
  "upper_char c =
     (let n = (of_char c :: nat) in if 97 \<le> n \<and> n \<le> 122 then char_of (n - 32) else c)"

definition toLowerCase :: "string \<Rightarrow> string" where
  "toLowerCase s = map lower_char s"

text \<open>The regular-expression class \<open>\w\<close>: letters, digits and the underscore.\<close>

definition word_char :: "char \<Rightarrow> bool" where
  "word_char c =
     (let n = (of_char c :: nat)
      in (65 \<le> n \<and> n \<le> 90) \<or> (97 \<le> n \<and> n \<le> 122) \<or> (48 \<le> n \<and> n \<le> 57) \<or> n = 95)"

subsection \<open>Property lookup on object literals\<close>

text \<open>
  \<open>MEASUREMENT_CODE_MAP\<close>, \<open>MEASUREMENT_DISPLAY_NAMES\<close> and the accumulator of
  \<open>transformToEyeson\<close> are object literals, so \<open>obj[key]\<close> first looks among the object's
  own properties and then along the prototype chain, which for an object literal is
  \<open>Object.prototype\<close>. All inherited values are functions, except the accessor
  \<open>__proto__\<close> which returns \<open>Object.prototype\<close> itself; all are truthy. The source uses
  what it looked up as a property key or inside a string, which coerces it to a string: the
  table gives that string for each inherited property, a function's in the form V8 prints
  (other engines differ in white space only).
\<close>

definition native_function :: "string \<Rightarrow> string" where
  "native_function f = ''function '' @ f @ ''() { [native code] }''"

definition object_prototype :: "(string \<times> string) list" where
  "object_prototype =
     [(''constructor'', native_function ''Object''),
      (''__defineGetter__'', native_function ''__defineGetter__''),
      (''__defineSetter__'', native_function ''__defineSetter__''),
      (''hasOwnProperty'', native_function ''hasOwnProperty''),
      (''__lookupGetter__'', native_function ''__lookupGetter__''),
      (''__lookupSetter__'', native_function ''__lookupSetter__''),
      (''isPrototypeOf'', native_function ''isPrototypeOf''),
      (''propertyIsEnumerable'', native_function ''propertyIsEnumerable''),
      (''toString'', native_function ''toString''),
      (''valueOf'', native_function ''valueOf''),
      (''__proto__'', ''[object Object]''),
      (''toLocaleString'', native_function ''toLocaleString'')]"

definition get_property :: "(string \<times> string) list \<Rightarrow> string \<Rightarrow> string option" where
  "get_property own key =
     (case map_of own key of
        Some v \<Rightarrow> Some v
      | None \<Rightarrow> map_of object_prototype key)"

text \<open>
  Assignment \<open>obj[key] = v\<close> on an object whose keys are not array indices: an existing
  own property keeps its place in the enumeration order, a new one goes last.
\<close>

fun set_property :: "'k \<Rightarrow> 'v \<Rightarrow> ('k \<times> 'v) list \<Rightarrow> ('k \<times> 'v) list" where
  "set_property k v [] = [(k, v)]"
| "set_property k v (p # ps) = (if fst p = k then (k, v) # ps else p # set_property k v ps)"

subsection \<open>Data\<close>

datatype grade = P0 | P1

record EyesonMeasurement =
  name :: string
  "value" :: number
  unit :: string
  confidence :: number
  grade :: grade

text \<open>
  An entry of \<open>PatternFactoryMeasurements\<close>. The secondary measurements are declared
  without a \<open>confidence\<close> field: there reading it gives \<open>undefined\<close>, here \<open>None\<close>.
  A measurement set is the list of the object's own properties in enumeration order.
\<close>

record PFMeasurement =
  pf_value :: number
  pf_unit :: string
  pf_confidence :: "number option"

type_synonym PatternFactoryMeasurements = "(string \<times> PFMeasurement) list"

definition MEASUREMENT_CODE_MAP :: "(string \<times> string) list" where
  "MEASUREMENT_CODE_MAP =
     [(''chest_girth'', ''Cg''), (''waist_girth'', ''Wg''), (''hip_girth'', ''Hg''),
      (''shoulder_width'', ''Sh''), (''arm_length'', ''Al''), (''back_width'', ''Bw''),
      (''neck_girth'', ''Nc''), (''bicep_girth'', ''Bi''), (''wrist_girth'', ''Wc''),
      (''inseam'', ''Il''), (''thigh_girth'', ''Th''), (''knee_girth'', ''Kn''),
      (''calf_girth'', ''Ca''),
      (''chest'', ''Cg''), (''waist'', ''Wg''), (''hip'', ''Hg''), (''shoulder'', ''Sh''),
      (''sleeve'', ''Al''), (''back'', ''Bw''), (''neck'', ''Nc''), (''bicep'', ''Bi''),
      (''wrist'', ''Wc''), (''inseam_length'', ''Il''), (''thigh'', ''Th''),
      (''knee'', ''Kn''), (''calf'', ''Ca'')]"

definition MEASUREMENT_DISPLAY_NAMES :: "(string \<times> string) list" where
  "MEASUREMENT_DISPLAY_NAMES =
     [(''Cg'', ''Chest Girth''), (''Wg'', ''Waist Girth''), (''Hg'', ''Hip Girth''),
      (''Sh'', ''Shoulder Width''), (''Al'', ''Arm Length''), (''Bw'', ''Back Width''),
      (''Nc'', ''Neck Circumference''), (''Bi'', ''Bicep Girth''),
      (''Wc'', ''Wrist Circumference''), (''Il'', ''Inseam Length''),
      (''Th'', ''Thigh Girth''), (''Kn'', ''Knee Girth''), (''Ca'', ''Calf Girth'')]"

text \<open>\<open>MEASUREMENT_DISPLAY_NAMES[code] || code\<close>, as the text it contributes to a message.\<close>

definition getMeasurementDisplayName :: "string \<Rightarrow> string" where
  "getMeasurementDisplayName code =
     (case get_property MEASUREMENT_DISPLAY_NAMES code of
        Some n \<Rightarrow> if n = [] then code else n
      | None \<Rightarrow> code)"

subsection \<open>transformToPatternFactory\<close>

definition requiredCodes :: "string list" where
  "requiredCodes =
     [''Cg'', ''Wg'', ''Hg'', ''Sh'', ''Al'', ''Bw'', ''Nc'', ''Bi'', ''Wc'', ''Il'', ''Th'',
      ''Kn'', ''Ca'']"

text \<open>One turn of the loop over the input: \<open>if (code) result[code] = {...}\<close>.\<close>

definition pf_step ::
  "PatternFactoryMeasurements \<Rightarrow> EyesonMeasurement \<Rightarrow> PatternFactoryMeasurements" where
  "pf_step result measurement =
     (case get_property MEASUREMENT_CODE_MAP (toLowerCase (name measurement)) of
        None \<Rightarrow> result
      | Some code \<Rightarrow>
          if code = [] then result
          else set_property code
                 \<lparr>pf_value = value measurement, pf_unit = ''cm'',
                  pf_confidence = Some (confidence measurement)\<rparr> result)"

definition transformToPatternFactory :: "EyesonMeasurement list \<Rightarrow> PatternFactoryMeasurements" where
  "transformToPatternFactory eyesonMeasurements = foldl pf_step [] eyesonMeasurements"

text \<open>
  The argument of \<open>console.warn\<close>, when the function warns: the display names of the
  required codes that the result lacks. The result is returned all the same.
\<close>

definition missing_codes :: "PatternFactoryMeasurements \<Rightarrow> string list" where
  "missing_codes result = filter (\<lambda>code. map_of result code = None) requiredCodes"

definition transformToPatternFactory_warning :: "EyesonMeasurement list \<Rightarrow> string list option" where
  "transformToPatternFactory_warning eyesonMeasurements =
     (let missing = missing_codes (transformToPatternFactory eyesonMeasurements)
      in if length missing > 0 then Some (map getMeasurementDisplayName missing) else None)"

subsection \<open>transformToEyeson\<close>

text \<open>\<open>name.replace(/_/g, ' ').replace(/\b\w/g, l => l.toUpperCase())\<close>\<close>

fun capitalise :: "bool \<Rightarrow> string \<Rightarrow> string" where
  "capitalise _ [] = []"
| "capitalise inside (c # cs) =
     (if word_char c then (if inside then c else upper_char c) # capitalise True cs
      else c # capitalise False cs)"

definition display_of_name :: "string \<Rightarrow> string" where
  "display_of_name n = capitalise False (map (\<lambda>c. if c = CHR ''_'' then CHR '' '' else c) n)"

definition codeToNameMap :: "(string \<times> string) list" where
  "codeToNameMap =
     foldl (\<lambda>acc (n, code). set_property code (display_of_name n) acc) [] MEASUREMENT_CODE_MAP"

definition eyeson_of :: "string \<times> PFMeasurement \<Rightarrow> EyesonMeasurement" where
  "eyeson_of p =
     (let code = fst p; data = snd p in
      \<lparr>name = (case get_property codeToNameMap code of
                 Some n \<Rightarrow> if n = [] then code else n
               | None \<Rightarrow> code),
       value = pf_value data,
       unit = (if pf_unit data = [] then ''cm'' else pf_unit data),
       confidence = (case pf_confidence data of
                       Some c \<Rightarrow> if truthy c then c else Fin (9/10)
                     | None \<Rightarrow> Fin (9/10)),
       grade = (case pf_confidence data of
                  Some c \<Rightarrow> if truthy c \<and> num_le (Fin (9/10)) c then P0 else P1
                | None \<Rightarrow> P1)\<rparr>)"

text \<open>
  Every entry of the typed input is an object whose \<open>value\<close> is a number, so the test
  \<open>data && typeof data.value === 'number'\<close> holds for each of them.
\<close>

definition transformToEyeson :: "PatternFactoryMeasurements \<Rightarrow> EyesonMeasurement list" where
  "transformToEyeson pfMeasurements = map eyeson_of pfMeasurements"

subsection \<open>validateMeasurements\<close>

text \<open>
  The messages are kept structured: a missing-measurement error carries the display name
  that the text is built from, a low-confidence warning the display name and the
  confidence that the percentage is computed from.
\<close>

datatype message =
    Missing_required string
  | Low_confidence string number
  | Chest_not_larger
  | Hip_not_larger

record validation =
  valid :: bool
  errors :: "message list"
  warnings :: "message list"

definition primaryCodes :: "string list" where
  "primaryCodes = [''Cg'', ''Wg'', ''Hg'', ''Sh'', ''Al'', ''Nc'']"

text \<open>\<open>!measurement || !measurement.value\<close>\<close>

definition lacks :: "PatternFactoryMeasurements \<Rightarrow> string \<Rightarrow> bool" where
  "lacks measurements code =
     (case map_of measurements code of None \<Rightarrow> True | Some m \<Rightarrow> \<not> truthy (pf_value m))"

definition missing_errors :: "PatternFactoryMeasurements \<Rightarrow> message list" where
  "missing_errors measurements =
     map (\<lambda>code. Missing_required (getMeasurementDisplayName code))
       (filter (lacks measurements) primaryCodes)"

text \<open>\<open>data && data.confidence < 0.75\<close>; an undefined confidence compares false.\<close>

definition low_confidence :: "PFMeasurement \<Rightarrow> bool" where
  "low_confidence data =
     (case pf_confidence data of None \<Rightarrow> False | Some c \<Rightarrow> num_less c (Fin (3/4)))"

definition confidence_warnings :: "PatternFactoryMeasurements \<Rightarrow> message list" where
  "confidence_warnings measurements =
     concat (map (\<lambda>(code, data).
                    case pf_confidence data of
                      None \<Rightarrow> []
                    | Some c \<Rightarrow>
                        if low_confidence data
                        then [Low_confidence (getMeasurementDisplayName code) c] else [])
               measurements)"

text \<open>\<open>measurements.Cg?.value\<close>, with \<open>None\<close> for \<open>undefined\<close>.\<close>

definition value_of :: "PatternFactoryMeasurements \<Rightarrow> string \<Rightarrow> number option" where
  "value_of measurements code = map_option pf_value (map_of measurements code)"

text \<open>\<open>a && b && a <= b\<close>\<close>

definition not_larger :: "number option \<Rightarrow> number option \<Rightarrow> bool" where
  "not_larger a b =
     (case (a, b) of
        (Some x, Some y) \<Rightarrow> truthy x \<and> truthy y \<and> num_le x y
      | _ \<Rightarrow> False)"

definition plausibility_warnings :: "PatternFactoryMeasurements \<Rightarrow> message list" where
  "plausibility_warnings measurements =
     (let chest = value_of measurements ''Cg'';
          waist = value_of measurements ''Wg'';
          hip = value_of measurements ''Hg''
      in (if not_larger chest waist then [Chest_not_larger] else []) @
         (if not_larger hip waist then [Hip_not_larger] else []))"

definition validateMeasurements :: "PatternFactoryMeasurements \<Rightarrow> validation" where
  "validateMeasurements measurements =
     (let errors = missing_errors measurements;
          warnings = confidence_warnings measurements @ plausibility_warnings measurements
      in \<lparr>valid = (length errors = 0), errors = errors, warnings = warnings\<rparr>)"

subsection \<open>DEFAULT_MEASUREMENTS\<close>

definition entry :: "real \<Rightarrow> real \<Rightarrow> PFMeasurement" where
  "entry v c = \<lparr>pf_value = Fin v, pf_unit = ''cm'', pf_confidence = Some (Fin c)\<rparr>"

definition DEFAULT_MEASUREMENTS :: PatternFactoryMeasurements where
  "DEFAULT_MEASUREMENTS =
     [(''Cg'', entry (1025/10) (95/100)), (''Wg'', entry 88 (92/100)),
      (''Hg'', entry (985/10) (94/100)), (''Sh'', entry (452/10) (94/100)),
      (''Al'', entry (648/10) (88/100)), (''Bw'', entry (385/10) (81/100)),
      (''Nc'', entry (394/10) (93/100)), (''Bi'', entry (321/10) (85/100)),
      (''Wc'', entry (178/10) (87/100)), (''Il'', entry (824/10) (86/100)),
      (''Th'', entry (583/10) (84/100)), (''Kn'', entry (389/10) (83/100)),
      (''Ca'', entry (372/10) (82/100))]"


text \<open>Measurement sets used as concrete inputs below.\<close>

definition uniform :: "real \<Rightarrow> PatternFactoryMeasurements" where
  "uniform c =
     map (\<lambda>(code, data). (code, data\<lparr>pf_confidence := Some (Fin c)\<rparr>)) DEFAULT_MEASUREMENTS"



definition wg_250 :: PatternFactoryMeasurements where
  "wg_250 = set_property ''Wg'' (entry 250 (95/100)) (uniform (95/100))"

definition without_Bw :: PatternFactoryMeasurements where
  "without_Bw = filter (\<lambda>p. fst p \<noteq> ''Bw'') (uniform (95/100))"

definition named_constructor :: "EyesonMeasurement list" where
  "named_constructor =
     [\<lparr>name = ''constructor'', value = Fin 1, unit = ''cm'', confidence = Fin (95/100),
       grade = P0\<rparr>]"


text \<open>
  The projection of a measurement set that keeps, for each code, only whether its value is
  truthy (neither \<open>0\<close> nor \<open>NaN\<close>).
\<close>

definition presence_of :: "PatternFactoryMeasurements \<Rightarrow> (string \<times> bool) list" where
  "presence_of m = map (\<lambda>(code, data). (code, truthy (pf_value data))) m"

text \<open>The grade as a function of the confidence alone.\<close>

definition grade_of_confidence :: "number option \<Rightarrow> grade" where
  "grade_of_confidence c =
     (case c of None \<Rightarrow> P1 | Some x \<Rightarrow> if num_le (Fin (9/10)) x then P0 else P1)"

section \<open>Order-lifecycle orchestrator\<close>

text \<open>
  The state machine engine, the work queue and the event log are described by the
  repository's documents; their code is not among its source files. They are modelled here
  from the specification, sections 3 to 5.
\<close>

subsection \<open>States and the transition matrix\<close>

text \<open>
  Modelled from the spec: the states of section 4.1 (the engine's code is missing). The
  order state machine document numbers them S01 to S22, with the substates S04a
  (\<open>VALIDATION\<close>) and S06a (\<open>QUEUE_WAIT\<close>). \<open>MANUAL_REVIEW\<close> is the manual-review state
  of sections 4.1, 4.3 and 7, which the document's list does not have.
\<close>

datatype state =
    CREATED | RECEIVED | SCAN_RECEIVED | PROCESSING | VALIDATION | PATTERN_READY
  | CUTTING | QUEUE_WAIT | PATTERN_CUT | STAGING | QA | STAGING2 | SEWING | ASSEMBLY
  | FINISHING | READY_FOR_PICKUP | PICKED_UP | SHIPPING | DELIVERED | ALTERATIONS
  | COMPLETED | CANCELLED | REFUND_PROCESSING | CLOSED | MANUAL_REVIEW

definition all_states :: "state list" where
  "all_states =
     [CREATED, RECEIVED, SCAN_RECEIVED, PROCESSING, VALIDATION, PATTERN_READY, CUTTING,
      QUEUE_WAIT, PATTERN_CUT, STAGING, QA, STAGING2, SEWING, ASSEMBLY, FINISHING,
      READY_FOR_PICKUP, PICKED_UP, SHIPPING, DELIVERED, ALTERATIONS, COMPLETED, CANCELLED,
      REFUND_PROCESSING, CLOSED, MANUAL_REVIEW]"

text \<open>
  Modelled from the spec: the terminal states of section 4.1 (the engine's code is missing);
  a pre-terminal state is any other state.
\<close>

definition terminal :: "state \<Rightarrow> bool" where
  "terminal s = (s = PICKED_UP \<or> s = DELIVERED \<or> s = COMPLETED \<or> s = CLOSED)"

type_synonym event = string

text \<open>
  The transition matrix of the order state machine document, row by row: from-state,
  trigger, to-state.
\<close>

definition transition_matrix :: "(state \<times> event \<times> state) list" where
  "transition_matrix =
     [(CREATED, ''POST /orders'', RECEIVED),
      (RECEIVED, ''EYESON Scan'', SCAN_RECEIVED),
      (RECEIVED, ''Manual Entry'', PROCESSING),
      (SCAN_RECEIVED, ''Validation Pass'', PROCESSING),
      (PROCESSING, ''Start Validation'', VALIDATION),
      (VALIDATION, ''Validation OK'', PATTERN_READY),
      (VALIDATION, ''Validation Fail'', PROCESSING),
      (PATTERN_READY, ''Submit to Queue'', CUTTING),
      (CUTTING, ''Queue Full'', QUEUE_WAIT),
      (QUEUE_WAIT, ''Retry'', CUTTING),
      (QUEUE_WAIT, ''Cutter Ready'', PATTERN_CUT),
      (CUTTING, ''Direct Cut'', PATTERN_CUT),
      (PATTERN_CUT, ''Fabric Ready'', STAGING),
      (STAGING, ''QA Scheduled'', QA),
      (QA, ''QA Pass'', STAGING2),
      (QA, ''QA Fail'', SEWING),
      (STAGING2, ''Start Sewing'', SEWING),
      (SEWING, ''Assembly'', ASSEMBLY),
      (ASSEMBLY, ''Finishing'', FINISHING),
      (FINISHING, ''Pressed'', READY_FOR_PICKUP),
      (READY_FOR_PICKUP, ''Pickup'', PICKED_UP),
      (READY_FOR_PICKUP, ''Ship'', SHIPPING),
      (READY_FOR_PICKUP, ''Alterations'', ALTERATIONS),
      (SHIPPING, ''Delivered'', DELIVERED),
      (ALTERATIONS, ''Complete'', COMPLETED),
      (READY_FOR_PICKUP, ''Cancel'', CANCELLED),
      (CANCELLED, ''Refund'', REFUND_PROCESSING),
      (REFUND_PROCESSING, ''Closed'', CLOSED)]"

text \<open>
  Modelled from the spec: the transitions that the spec requires and the document's matrix
  does not list (the engine's code is missing): a cancel from every pre-terminal state
  (section 5), read as every state that section 4.1 does not list as terminal, the timeout of \<open>RECEIVED\<close> with trigger \<open>SLA_TIMEOUT\<close> into the cancelled
  family (sections 4.4 and 8), and the moves into manual review: a validation failure with
  the retries exhausted (section 4.1) and a dead-lettered cutter job (sections 4.3 and 7).
  The spec names no event that leaves manual review other than the cancel. The state graph
  of the engine is the matrix followed by these rows.
\<close>

definition spec_transitions :: "(state \<times> event \<times> state) list" where
  "spec_transitions =
     map (\<lambda>s. (s, ''Cancel'', CANCELLED)) (filter (\<lambda>s. \<not> terminal s) all_states) @
     [(RECEIVED, ''SLA_TIMEOUT'', CANCELLED),
      (VALIDATION, ''Validation Fail'', MANUAL_REVIEW),
      (CUTTING, ''DEAD_LETTER'', MANUAL_REVIEW),
      (QUEUE_WAIT, ''DEAD_LETTER'', MANUAL_REVIEW)]"

definition state_graph :: "(state \<times> event \<times> state) list" where
  "state_graph = transition_matrix @ spec_transitions"

text \<open>
  Modelled from the spec: the event defined for a state (section 4.1, "the event is not
  defined for the order's current state"); the engine's lookup is missing. The engine
  consults a table of rows from-state, event, to-state; the first row for the state and the
  event decides.
\<close>

definition next_state :: "(state \<times> event \<times> state) list \<Rightarrow> state \<Rightarrow> event \<Rightarrow> state option" where
  "next_state g s ev = map_of (map (\<lambda>(f, e, t). ((f, e), t)) g) (s, ev)"

subsection \<open>Orders, transition records and the engine\<close>

text \<open>
  Modelled from the spec: the priority of an order and of a job (section 3, one of rush,
  high, normal, low); the code that declares it is missing.
\<close>

datatype priority = Rush | High | Normal | Low

text \<open>
  Modelled from the spec: \<open>StateTransitionRecord\<close> of section 3 (the event log's code is
  missing). The metadata of a record is the payload of the call.
\<close>

record StateTransitionRecord =
  rec_order_id :: string
  from_state :: state
  to_state :: state
  trigger :: event
  timestamp :: nat
  metadata :: string

text \<open>
  Modelled from the spec: the \<open>Order\<close> of section 3 (its code is missing), with the
  fields the engine reads and writes. \<open>applied\<close> lists the pairs of event and payload that
  have succeeded for the order, which is what makes a replayed call recognisable
  (section 4.1, idempotency); \<open>retry_count\<close> counts the validation failures.
\<close>

record order =
  order_id :: string
  order_state :: state
  order_priority :: priority
  applied :: "(event \<times> string) list"
  retry_count :: nat
  created_at :: nat
  updated_at :: nat

text \<open>
  Modelled from the spec: the engine's state graph, the configured number of validation
  attempts (section 4.1, default 3), its store of orders and the append-only event log
  (sections 2, 4.1 and 4.5; their code is missing).
\<close>

record engine =
  graph :: "(state \<times> event \<times> state) list"
  validation_attempts :: nat
  orders :: "string \<Rightarrow> order option"
  event_log :: "StateTransitionRecord list"

definition empty_engine :: "(state \<times> event \<times> state) list \<Rightarrow> nat \<Rightarrow> engine" where
  "empty_engine g n = \<lparr>graph = g, validation_attempts = n, orders = (\<lambda>_. None), event_log = []\<rparr>"

text \<open>
  Modelled from the spec: the errors of \<open>transition\<close> (sections 4.1 and 7); the engine's code
  is missing.
\<close>

datatype TransitionError = IllegalTransition | OrderNotFound | ConcurrentModification

text \<open>
  Modelled from the spec: order creation (section 3, "created on submission"; the code is
  missing). An order enters in state \<open>CREATED\<close>; an identifier is assigned once.
\<close>

definition create_order :: "engine \<Rightarrow> string \<Rightarrow> priority \<Rightarrow> nat \<Rightarrow> engine" where
  "create_order eng oid prio now =
     (case orders eng oid of
        Some _ \<Rightarrow> eng
      | None \<Rightarrow>
          eng\<lparr>orders := (orders eng)(oid \<mapsto>
                 \<lparr>order_id = oid, order_state = CREATED, order_priority = prio,
                  applied = [], retry_count = 0, created_at = now, updated_at = now\<rparr>)\<rparr>)"

text \<open>
  Modelled from the spec: the outcome of a validation failure (section 4.1; the engine's
  code is missing). The move from \<open>VALIDATION\<close> back to \<open>PROCESSING\<close> is the bounded retry:
  it counts one more failure, and once the failures reach the configured number of attempts
  the order goes to manual review instead.
\<close>

definition validation_failure :: "order \<Rightarrow> state \<Rightarrow> bool" where
  "validation_failure ord s = (order_state ord = VALIDATION \<and> s = PROCESSING)"

definition target :: "engine \<Rightarrow> order \<Rightarrow> event \<Rightarrow> state option" where
  "target eng ord ev =
     (case next_state (graph eng) (order_state ord) ev of
        None \<Rightarrow> None
      | Some s \<Rightarrow>
          if validation_failure ord s \<and> validation_attempts eng \<le> retry_count ord + 1
          then Some MANUAL_REVIEW else Some s)"

definition retries_after :: "order \<Rightarrow> state \<Rightarrow> nat" where
  "retries_after ord s =
     (if order_state ord = VALIDATION \<and> (s = PROCESSING \<or> s = MANUAL_REVIEW)
      then retry_count ord + 1 else retry_count ord)"

text \<open>
  Modelled from the spec: \<open>transition(order_id, event, payload)\<close> of section 4.1 (the
  engine's code is missing). An unknown order is \<open>OrderNotFound\<close>; a pair of event and
  payload that has already succeeded for the order is a no-op returning the current state;
  an event not defined for the current state is \<open>IllegalTransition\<close>; otherwise the order
  moves and one record is appended to the event log. A call is atomic here, as the
  per-order lock of section 5 makes it: \<open>ConcurrentModification\<close> does not arise. The
  clock reading \<open>now\<close> is an argument. The verdict of the validation gate and the outcome
  of the cutter job reach the engine as events; the gate and the queue are modelled on
  their own and not called from here.
\<close>

definition transition ::
  "engine \<Rightarrow> string \<Rightarrow> event \<Rightarrow> string \<Rightarrow> nat \<Rightarrow> (TransitionError + state) \<times> engine" where
  "transition eng oid ev pl now =
     (case orders eng oid of
        None \<Rightarrow> (Inl OrderNotFound, eng)
      | Some ord \<Rightarrow>
          if (ev, pl) \<in> set (applied ord) then (Inr (order_state ord), eng)
          else
            (case target eng ord ev of
               None \<Rightarrow> (Inl IllegalTransition, eng)
             | Some s \<Rightarrow>
                 (Inr s,
                  eng\<lparr>orders := (orders eng)(oid \<mapsto>
                         ord\<lparr>order_state := s, applied := applied ord @ [(ev, pl)],
                             retry_count := retries_after ord s, updated_at := now\<rparr>),
                      event_log := event_log eng @
                         [\<lparr>rec_order_id = oid, from_state = order_state ord, to_state = s,
                           trigger = ev, timestamp = now, metadata = pl\<rparr>]\<rparr>)))"

text \<open>The calls the engine receives, and a run of them from the empty engine.\<close>

datatype call = Create string priority nat | Transition string event string nat

fun apply_call :: "engine \<Rightarrow> call \<Rightarrow> engine" where
  "apply_call eng (Create oid prio now) = create_order eng oid prio now"
| "apply_call eng (Transition oid ev pl now) = snd (transition eng oid ev pl now)"

definition run_calls :: "engine \<Rightarrow> call list \<Rightarrow> engine" where
  "run_calls eng cs = foldl apply_call eng cs"

text \<open>The transition history of an order: its records in the event log, in order.\<close>

definition history :: "engine \<Rightarrow> string \<Rightarrow> StateTransitionRecord list" where
  "history eng oid = filter (\<lambda>r. rec_order_id r = oid) (event_log eng)"

text \<open>
  A legal walk of a graph from a state: each record starts where the walk stands, is a row
  of the graph, and moves the walk to its \<open>to_state\<close>.
\<close>

fun legal_walk ::
  "(state \<times> event \<times> state) list \<Rightarrow> state \<Rightarrow> StateTransitionRecord list \<Rightarrow> bool" where
  "legal_walk g s [] = True"
| "legal_walk g s (r # rs) =
     (from_state r = s \<and> (from_state r, trigger r, to_state r) \<in> set g \<and>
      legal_walk g (to_state r) rs)"

fun walk_end :: "state \<Rightarrow> StateTransitionRecord list \<Rightarrow> state" where
  "walk_end s [] = s"
| "walk_end s (r # rs) = walk_end (to_state r) rs"

text \<open>Runs of the engine used as concrete inputs below.\<close>

definition timeout_calls :: "call list" where
  "timeout_calls =
     [Create ''SDS-20260201-0001-A'' Normal 0,
      Transition ''SDS-20260201-0001-A'' ''POST /orders'' ''{}'' 1,
      Transition ''SDS-20260201-0001-A'' ''SLA_TIMEOUT'' ''24h'' 90000]"

definition review_calls :: "call list" where
  "review_calls =
     [Create ''SDS-20260201-0002-A'' Normal 0,
      Transition ''SDS-20260201-0002-A'' ''POST /orders'' ''{}'' 1,
      Transition ''SDS-20260201-0002-A'' ''Manual Entry'' ''no Nc'' 2,
      Transition ''SDS-20260201-0002-A'' ''Start Validation'' ''attempt 1'' 3,
      Transition ''SDS-20260201-0002-A'' ''Validation Fail'' ''attempt 1'' 4,
      Transition ''SDS-20260201-0002-A'' ''Start Validation'' ''attempt 2'' 5,
      Transition ''SDS-20260201-0002-A'' ''Validation Fail'' ''attempt 2'' 6,
      Transition ''SDS-20260201-0002-A'' ''Start Validation'' ''attempt 3'' 7,
      Transition ''SDS-20260201-0002-A'' ''Validation Fail'' ''attempt 3'' 8,
      Transition ''SDS-20260201-0002-A'' ''Cancel'' ''operator'' 9]"

definition received_engine :: engine where
  "received_engine = run_calls (empty_engine state_graph 3)
     [Create ''SDS-20260201-0001-A'' Normal 0,
      Transition ''SDS-20260201-0001-A'' ''POST /orders'' ''{}'' 1]"

definition received_order :: order where
  "received_order =
     \<lparr>order_id = ''SDS-20260201-0001-A'', order_state = RECEIVED, order_priority = Normal,
      applied = [(''POST /orders'', ''{}'')], retry_count = 0, created_at = 0, updated_at = 1\<rparr>"

subsection \<open>Resilient work queue\<close>

text \<open>
  Modelled from the spec: the status of a job (section 3: pending, in_flight, done,
  dead_letter); the queue's code is missing.
\<close>

datatype job_status = Pending | In_flight | Done | Dead_letter

text \<open>
  Modelled from the spec: \<open>QueueJob\<close> of section 3 (the queue's code is missing).
  \<open>enqueued_at\<close> is the enqueue sequence number, the tie-break of section 4.3.
\<close>

record QueueJob =
  job_id :: nat
  job_order_id :: string
  payload :: string
  job_priority :: priority
  attempt_count :: nat
  status :: job_status
  enqueued_at :: nat

text \<open>
  Modelled from the spec: the operations a WAL entry records (section 4.3, steps 1 to 4, and
  the cancel request of section 5); the queue's code is missing.
\<close>

datatype operation = ENQUEUE QueueJob | DEQUEUE | ACK | RETRY nat | DEAD_LETTER | CANCEL_REQUEST

text \<open>
  Modelled from the spec: \<open>WALEntry\<close> of section 3 (the queue's code is missing).
\<close>

record WALEntry =
  sequence_no :: nat
  wal_job_id :: nat
  operation :: operation
  payload_checksum :: nat

text \<open>
  Modelled from the spec: the queue (section 4.3; its code is missing): the write-ahead
  log, the in-memory index of jobs in enqueue order, the configured maximum attempt count,
  and the checksum function, which the spec leaves open.
\<close>

record queue =
  wal :: "WALEntry list"
  jobs :: "QueueJob list"
  max_attempts :: nat
  checksum :: "string \<Rightarrow> nat"

definition empty_queue :: "nat \<Rightarrow> (string \<Rightarrow> nat) \<Rightarrow> queue" where
  "empty_queue m ck = \<lparr>wal = [], jobs = [], max_attempts = m, checksum = ck\<rparr>"

definition find_job :: "QueueJob list \<Rightarrow> nat \<Rightarrow> QueueJob option" where
  "find_job js jid = find (\<lambda>j. job_id j = jid) js"

definition update_job :: "nat \<Rightarrow> (QueueJob \<Rightarrow> QueueJob) \<Rightarrow> QueueJob list \<Rightarrow> QueueJob list" where
  "update_job jid f js = map (\<lambda>j. if job_id j = jid then f j else j) js"

text \<open>
  Modelled from the spec: the entry written ahead of an operation on a job (section 3,
  \<open>WALEntry\<close>; the code is missing), numbered after the last entry of the log.
\<close>

definition wal_entry :: "queue \<Rightarrow> nat \<Rightarrow> operation \<Rightarrow> string \<Rightarrow> WALEntry" where
  "wal_entry q jid oper pl =
     \<lparr>sequence_no = length (wal q), wal_job_id = jid, operation = oper,
      payload_checksum = checksum q pl\<rparr>"

text \<open>
  Modelled from the spec: the ordering of section 4.3 (the code is missing): strict
  priority, rush before high before normal before low, then the enqueue sequence number.
\<close>

fun rank :: "priority \<Rightarrow> nat" where
  "rank Rush = 0"
| "rank High = 1"
| "rank Normal = 2"
| "rank Low = 3"

text \<open>
  Modelled from the spec: the job a worker takes (section 4.3, step 2; the code is missing):
  among the pending jobs, the one with the least pair of priority rank and enqueue sequence
  number.
\<close>

definition job_key :: "QueueJob \<Rightarrow> nat \<times> nat" where
  "job_key j = (rank (job_priority j), enqueued_at j)"

definition is_pending :: "QueueJob \<Rightarrow> bool" where
  "is_pending j = (status j = Pending)"

definition next_job :: "QueueJob list \<Rightarrow> QueueJob option" where
  "next_job js =
     (case filter is_pending js of
        [] \<Rightarrow> None
      | p # ps \<Rightarrow> Some (arg_min_list job_key (p # ps)))"

text \<open>
  Modelled from the spec: \<open>enqueue(order_id, payload, priority)\<close>, step 1 of section 4.3
  (the code is missing). The entry is written, then the job is made visible; the job's
  identifier and its enqueue sequence number are the entry's sequence number.
\<close>

definition enqueue :: "queue \<Rightarrow> string \<Rightarrow> string \<Rightarrow> priority \<Rightarrow> nat \<times> queue" where
  "enqueue q oid pl prio =
     (let n = length (wal q);
          job = \<lparr>job_id = n, job_order_id = oid, payload = pl, job_priority = prio,
                 attempt_count = 0, status = Pending, enqueued_at = n\<rparr>
      in (n, q\<lparr>wal := wal q @ [wal_entry q n (ENQUEUE job) pl],
               jobs := jobs q @ [job]\<rparr>))"

text \<open>
  Modelled from the spec: a worker's dequeue, step 2 of section 4.3 (the code is missing):
  the highest-priority pending job, recorded, then marked in flight.
\<close>

definition dequeue :: "queue \<Rightarrow> QueueJob option \<times> queue" where
  "dequeue q =
     (case next_job (jobs q) of
        None \<Rightarrow> (None, q)
      | Some j \<Rightarrow>
          (Some j,
           q\<lparr>wal := wal q @ [wal_entry q (job_id j) DEQUEUE (payload j)],
             jobs := update_job (job_id j) (\<lambda>k. k\<lparr>status := In_flight\<rparr>) (jobs q)\<rparr>))"

text \<open>
  Modelled from the spec: the acknowledgement of a delivery, step 3 of section 4.3 (the code
  is missing). Only a job in flight can be acknowledged.
\<close>

definition ack :: "queue \<Rightarrow> nat \<Rightarrow> queue" where
  "ack q jid =
     (case find_job (jobs q) jid of
        None \<Rightarrow> q
      | Some j \<Rightarrow>
          if status j = In_flight
          then q\<lparr>wal := wal q @ [wal_entry q jid ACK (payload j)],
                 jobs := update_job jid (\<lambda>k. k\<lparr>status := Done\<rparr>) (jobs q)\<rparr>
          else q)"

text \<open>
  Modelled from the spec: a failed delivery, step 4 of section 4.3 (the code is missing):
  a retry while the attempts stay under the configured maximum, a dead letter after. The
  backoff delay and its jitter are time and chance, which the model leaves out: a retried
  job is pending at once.
\<close>

definition fail :: "queue \<Rightarrow> nat \<Rightarrow> queue" where
  "fail q jid =
     (case find_job (jobs q) jid of
        None \<Rightarrow> q
      | Some j \<Rightarrow>
          if status j = In_flight
          then (let attempt = attempt_count j + 1 in
                if attempt < max_attempts q
                then q\<lparr>wal := wal q @ [wal_entry q jid (RETRY attempt) (payload j)],
                       jobs := update_job jid
                                 (\<lambda>k. k\<lparr>attempt_count := attempt, status := Pending\<rparr>) (jobs q)\<rparr>
                else q\<lparr>wal := wal q @ [wal_entry q jid DEAD_LETTER (payload j)],
                       jobs := update_job jid (\<lambda>k. k\<lparr>status := Dead_letter\<rparr>) (jobs q)\<rparr>)
          else q)"

text \<open>
  Modelled from the spec: the best-effort cancel request of section 5 (the code is
  missing). It is recorded for a job that is pending or in flight; the spec gives it no
  effect on the job's status.
\<close>

definition cancel_request :: "queue \<Rightarrow> nat \<Rightarrow> queue" where
  "cancel_request q jid =
     (case find_job (jobs q) jid of
        None \<Rightarrow> q
      | Some j \<Rightarrow>
          if status j = Pending \<or> status j = In_flight
          then q\<lparr>wal := wal q @ [wal_entry q jid CANCEL_REQUEST (payload j)]\<rparr>
          else q)"

text \<open>
  Modelled from the spec: crash recovery, step 5 of section 4.3 (the code is missing). The
  log is replayed from its start in sequence order, each entry applied to the jobs rebuilt
  so far; a job left in flight is pending again. Recovery is given the log and the
  configuration and nothing else: no other source of truth exists (section 3).
\<close>

definition apply_entry :: "QueueJob list \<Rightarrow> WALEntry \<Rightarrow> QueueJob list" where
  "apply_entry js e =
     (case operation e of
        ENQUEUE j \<Rightarrow> js @ [j]
      | DEQUEUE \<Rightarrow> update_job (wal_job_id e) (\<lambda>k. k\<lparr>status := In_flight\<rparr>) js
      | ACK \<Rightarrow> update_job (wal_job_id e) (\<lambda>k. k\<lparr>status := Done\<rparr>) js
      | RETRY n \<Rightarrow> update_job (wal_job_id e) (\<lambda>k. k\<lparr>attempt_count := n, status := Pending\<rparr>) js
      | DEAD_LETTER \<Rightarrow> update_job (wal_job_id e) (\<lambda>k. k\<lparr>status := Dead_letter\<rparr>) js
      | CANCEL_REQUEST \<Rightarrow> js)"

definition replay :: "WALEntry list \<Rightarrow> QueueJob list" where
  "replay w = foldl apply_entry [] w"

definition reset_in_flight :: "QueueJob \<Rightarrow> QueueJob" where
  "reset_in_flight j = (if status j = In_flight then j\<lparr>status := Pending\<rparr> else j)"

definition rebuild :: "WALEntry list \<Rightarrow> QueueJob list" where
  "rebuild w = map reset_in_flight (replay w)"

definition recover :: "nat \<Rightarrow> (string \<Rightarrow> nat) \<Rightarrow> WALEntry list \<Rightarrow> queue" where
  "recover m ck w = \<lparr>wal = w, jobs = rebuild w, max_attempts = m, checksum = ck\<rparr>"

text \<open>
  The operations the queue receives, and a run of them. The process may be killed and
  started again between any two operations: \<open>Crash\<close> loses the jobs in memory and recovers
  the queue from its log. An operation writes its one entry before its effect, so the log
  of a process killed between the write and the effect is the log after the operation.
\<close>

datatype command =
  Enqueue string string priority | Dequeue | Ack nat | Fail nat | Cancel nat | Crash

fun step :: "queue \<Rightarrow> command \<Rightarrow> queue" where
  "step q (Enqueue oid pl prio) = snd (enqueue q oid pl prio)"
| "step q Dequeue = snd (dequeue q)"
| "step q (Ack jid) = ack q jid"
| "step q (Fail jid) = fail q jid"
| "step q (Cancel jid) = cancel_request q jid"
| "step q Crash = recover (max_attempts q) (checksum q) (wal q)"

definition run_queue :: "queue \<Rightarrow> command list \<Rightarrow> queue" where
  "run_queue q cs = foldl step q cs"

text \<open>
  Modelled from the spec: the last recorded operation of a job and the status it restores
  (section 4.3, step 5, and section 8; the code is missing). The last operation is that of
  the last entry of the log for the job; a cancel request is best effort and changes no
  status (section 5), so it is passed over. An enqueued job, a retried job and a job
  dequeued and not acknowledged are pending; an acknowledged job is done; a dead-lettered
  job stays dead-lettered.
\<close>

definition last_operation :: "WALEntry list \<Rightarrow> nat \<Rightarrow> operation option" where
  "last_operation w jid =
     (case filter (\<lambda>e. wal_job_id e = jid \<and> operation e \<noteq> CANCEL_REQUEST) w of
        [] \<Rightarrow> None
      | e # es \<Rightarrow> Some (operation (last (e # es))))"

fun restored_status :: "operation \<Rightarrow> job_status option" where
  "restored_status (ENQUEUE j) = Some Pending"
| "restored_status DEQUEUE = Some Pending"
| "restored_status ACK = Some Done"
| "restored_status (RETRY n) = Some Pending"
| "restored_status DEAD_LETTER = Some Dead_letter"
| "restored_status CANCEL_REQUEST = None"

text \<open>
  A rebuilt job carries an enqueued job when it has its identifier, order, payload, priority
  and enqueue sequence number.
\<close>

definition carries :: "QueueJob \<Rightarrow> QueueJob \<Rightarrow> bool" where
  "carries j j0 =
     (job_id j = job_id j0 \<and> job_order_id j = job_order_id j0 \<and> payload j = payload j0 \<and>
      job_priority j = job_priority j0 \<and> enqueued_at j = enqueued_at j0)"







text \<open>Runs of the queue used as concrete inputs below.\<close>

definition crash_commands :: "command list" where
  "crash_commands =
     [Enqueue ''SDS-20260201-0001-A'' ''cut-1'' Normal,
      Enqueue ''SDS-20260201-0002-A'' ''cut-2'' Rush,
      Dequeue, Dequeue, Ack 1, Crash, Dequeue, Fail 0,
      Enqueue ''SDS-20260201-0003-A'' ''cut-3'' Low, Dequeue]"

definition crash_queue :: queue where
  "crash_queue = run_queue (empty_queue 3 length) crash_commands"


subsection \<open>Invariants\<close>

text \<open>
  A graph provides for manual review when, beside each row from \<open>VALIDATION\<close> back to
  \<open>PROCESSING\<close>, it has the row of the same event into \<open>MANUAL_REVIEW\<close>.
\<close>

definition provides_review :: "(state \<times> event \<times> state) list \<Rightarrow> bool" where
  "provides_review g =
     (\<forall>ev. (VALIDATION, ev, PROCESSING) \<in> set g \<longrightarrow> (VALIDATION, ev, MANUAL_REVIEW) \<in> set g)"

text \<open>
  The invariant of the engine: the history of an order that is not in the store is empty;
  the history of a stored order is a legal walk of the engine's graph from \<open>CREATED\<close> to
  the order's current state.
\<close>

definition order_inv :: "engine \<Rightarrow> string \<Rightarrow> bool" where
  "order_inv eng oid =
     (case orders eng oid of
        None \<Rightarrow> history eng oid = []
      | Some ord \<Rightarrow>
          legal_walk (graph eng) CREATED (history eng oid) \<and>
          walk_end CREATED (history eng oid) = order_state ord)"

text \<open>
  What one operation of the queue does to the log and to the jobs in memory: it writes at
  most one entry, numbered next, and its effect on the jobs is the effect that replaying
  the entry has; the entry is for a job that the queue holds, and an \<open>ENQUEUE\<close> entry
  records a pending job under the entry's job identifier, which is the entry's sequence
  number.
\<close>

definition entry_ok :: "QueueJob list \<Rightarrow> WALEntry \<Rightarrow> bool" where
  "entry_ok js e =
     (wal_job_id e \<in> job_id ` set js \<and>
      (\<forall>j. operation e = ENQUEUE j \<longrightarrow> job_id j = wal_job_id e \<and> status j = Pending))"

definition writes :: "queue \<Rightarrow> queue \<Rightarrow> WALEntry list \<Rightarrow> bool" where
  "writes q q' es =
     (wal q' = wal q @ es \<and> jobs q' = foldl apply_entry (jobs q) es \<and> length es \<le> 1 \<and>
      (\<forall>e \<in> set es. entry_ok (jobs q') e \<and> sequence_no e = length (wal q) \<and>
         (\<forall>j. operation e = ENQUEUE j \<longrightarrow> job_id j = length (wal q))))"

text \<open>
  A job in memory reflects an operation when it has the status that the operation leaves;
  a dequeued job is in flight, or pending when the process has been started again since.
\<close>

fun reflects :: "operation \<Rightarrow> QueueJob \<Rightarrow> bool" where
  "reflects (ENQUEUE j0) j = (status j = Pending)"
| "reflects DEQUEUE j = (status j = In_flight \<or> status j = Pending)"
| "reflects ACK j = (status j = Done)"
| "reflects (RETRY n) j = (status j = Pending \<and> attempt_count j = n)"
| "reflects DEAD_LETTER j = (status j = Dead_letter)"
| "reflects CANCEL_REQUEST j = False"

text \<open>
  The invariant of the queue that the operations and a restart keep: the jobs in memory are
  the replayed jobs up to those in flight, which a restart has made pending; the entries
  are for jobs that the queue holds and are numbered in order; the job identifiers are
  distinct and smaller than the next sequence number; every job reflects the last operation
  recorded for it.
\<close>

definition queue_inv :: "queue \<Rightarrow> bool" where
  "queue_inv q =
     (map reset_in_flight (replay (wal q)) = map reset_in_flight (jobs q) \<and>
      (\<forall>e \<in> set (wal q). entry_ok (jobs q) e) \<and>
      map sequence_no (wal q) = [0..<length (wal q)] \<and>
      (\<forall>j \<in> set (jobs q). job_id j < length (wal q)) \<and>
      distinct (map job_id (jobs q)) \<and>
      (\<forall>j \<in> set (jobs q). \<exists>oper. last_operation (wal q) (job_id j) = Some oper \<and> reflects oper j))"

text \<open>A job awaits delivery when it is pending or in flight.\<close>

definition awaiting :: "nat \<Rightarrow> QueueJob list \<Rightarrow> bool" where
  "awaiting jid js = (\<forall>k \<in> set js. job_id k = jid \<longrightarrow> status k = Pending \<or> status k = In_flight)"

section \<open>Termination of draining\<close>

lemma next_job_Some:
  assumes "next_job js = Some j"
  shows "j \<in> set js \<and> is_pending j"
proof -
  from assms have ne: "filter is_pending js \<noteq> []"
    by (auto simp: next_job_def split: list.splits)
  from assms have "j = arg_min_list job_key (filter is_pending js)"
    by (auto simp: next_job_def split: list.splits)
  with ne have "j \<in> set (filter is_pending js)"
    using arg_min_list_in by metis
  then show ?thesis by simp
qed








section \<open>The validation gate as coded\<close>

lemma number_not_less_iff:
  assumes "truthy a" and "truthy b"
  shows "(\<not> num_less b a) = num_le a b"
  using assms by (cases a; cases b) auto


lemma errors_validate: "errors (validateMeasurements m) = missing_errors m"
  by (simp add: validateMeasurements_def Let_def)

lemma warnings_validate:
  "warnings (validateMeasurements m) = confidence_warnings m @ plausibility_warnings m"
  by (simp add: validateMeasurements_def Let_def)

lemma valid_validate: "valid (validateMeasurements m) = (missing_errors m = [])"
  by (simp add: validateMeasurements_def Let_def)

lemma missing_errors_Nil:
  "(missing_errors m = []) = (\<forall>code \<in> set primaryCodes. \<not> lacks m code)"
  by (simp add: missing_errors_def filter_empty_conv)




lemma confidence_warnings_only_low:
  "w \<in> set (confidence_warnings m) \<Longrightarrow> \<exists>n c. w = Low_confidence n c"
  by (auto simp: confidence_warnings_def split: option.splits if_splits)

lemmas validate_defs =
  validateMeasurements_def missing_errors_def primaryCodes_def lacks_def
  confidence_warnings_def low_confidence_def plausibility_warnings_def value_of_def
  not_larger_def getMeasurementDisplayName_def get_property_def MEASUREMENT_DISPLAY_NAMES_def

lemmas sample_defs = uniform_def DEFAULT_MEASUREMENTS_def entry_def




text \<open>
  Claim C3 says that a P0 value outside its documented range makes the verdict a fail. With
  \<open>Wg.value = 250\<close>, above the documented maximum of 160, the verdict is valid and has no
  error.
\<close>

theorem out_of_range_passes_counterexample:
  "value_of wg_250 ''Wg'' = Some (Fin 250) \<and>
   num_less (Fin 160) (Fin 250) \<and>
   pf_confidence (the (map_of wg_250 ''Wg'')) = Some (Fin (95/100)) \<and>
   valid (validateMeasurements wg_250) \<and>
   errors (validateMeasurements wg_250) = []"
  by (simp add: wg_250_def sample_defs validate_defs)

lemma lacks_presence_of:
  "lacks m code = (case map_of (presence_of m) code of None \<Rightarrow> True | Some b \<Rightarrow> \<not> b)"
  by (simp add: lacks_def presence_of_def map_of_map split: option.splits)

lemma missing_errors_presence:
  assumes "presence_of m = presence_of m'"
  shows "missing_errors m = missing_errors m'"
proof -
  have "lacks m = lacks m'"
    by (rule ext) (simp add: lacks_presence_of assms)
  then show ?thesis by (simp add: missing_errors_def)
qed

text \<open>
  Claim C3, as the code has it: no range is checked. The verdict and its errors are the same
  for two measurement sets with the same codes whose values differ in any way that keeps
  each value on its side of being \<open>0\<close> or \<open>NaN\<close>: how large or small a value is never makes
  the verdict fail, whatever the confidence.
\<close>

theorem verdict_ignores_magnitude:
  assumes "presence_of m = presence_of m'"
  shows "valid (validateMeasurements m) = valid (validateMeasurements m') \<and>
         errors (validateMeasurements m) = errors (validateMeasurements m')"
  using missing_errors_presence [OF assms] by (simp add: valid_validate errors_validate)

theorem verdict_ignores_magnitude_witness:
  "presence_of wg_250 = presence_of (uniform (95/100)) \<and>
   value_of wg_250 ''Wg'' = Some (Fin 250) \<and>
   value_of (uniform (95/100)) ''Wg'' = Some (Fin 88) \<and>
   valid (validateMeasurements wg_250) = valid (validateMeasurements (uniform (95/100))) \<and>
   errors (validateMeasurements wg_250) = errors (validateMeasurements (uniform (95/100)))"
proof -
  have p: "presence_of wg_250 = presence_of (uniform (95/100))"
    by (simp add: presence_of_def wg_250_def sample_defs)
  have v: "value_of wg_250 ''Wg'' = Some (Fin 250)" "value_of (uniform (95/100)) ''Wg'' = Some (Fin 88)"
    by (simp_all add: value_of_def wg_250_def sample_defs)
  show ?thesis
    using verdict_ignores_magnitude [OF p] p v by simp
qed

text \<open>
  Claim C2 says that the verdict fails when any of the 13 P0 codes is absent. The code lists
  six codes under "Check primary measurements exist": a set without \<open>Bw\<close>, which
  \<open>transformToPatternFactory\<close> counts among its \<open>requiredCodes\<close>, is valid with no error.
\<close>

theorem missing_back_width_is_valid:
  "map_of without_Bw ''Bw'' = None \<and> ''Bw'' \<in> set requiredCodes \<and>
   validateMeasurements without_Bw = \<lparr>valid = True, errors = [], warnings = []\<rparr>"
  by (simp add: without_Bw_def sample_defs validate_defs requiredCodes_def)

lemma plausibility_warnings_set:
  "set (plausibility_warnings m) =
     (if not_larger (value_of m ''Cg'') (value_of m ''Wg'') then {Chest_not_larger} else {}) \<union>
     (if not_larger (value_of m ''Hg'') (value_of m ''Wg'') then {Hip_not_larger} else {})"
  by (simp add: plausibility_warnings_def Let_def)

lemma present_truthy:
  assumes "\<not> lacks m code" and "value_of m code = Some v"
  shows "truthy v"
  using assms by (auto simp: lacks_def value_of_def split: option.splits)

text \<open>
  Claim C8: for a measurement set that passes the per-field checks of the code (none of the
  codes of \<open>primaryCodes\<close> is lacking), chest girth not greater than waist girth, and hip
  girth not greater than waist girth, are each reported among the warnings, exactly when
  they occur, and never among the errors; the verdict has no error and is valid. The code
  has no hard-fail setting.
\<close>

theorem ratio_violation_is_warning:
  assumes "\<forall>code \<in> set primaryCodes. \<not> lacks m code"
    and "value_of m ''Cg'' = Some chest"
    and "value_of m ''Wg'' = Some waist"
    and "value_of m ''Hg'' = Some hip"
  shows "(Chest_not_larger \<in> set (warnings (validateMeasurements m))) = (\<not> num_less waist chest) \<and>
         (Hip_not_larger \<in> set (warnings (validateMeasurements m))) = (\<not> num_less waist hip) \<and>
         Chest_not_larger \<notin> set (errors (validateMeasurements m)) \<and>
         Hip_not_larger \<notin> set (errors (validateMeasurements m)) \<and>
         errors (validateMeasurements m) = [] \<and>
         valid (validateMeasurements m)"
proof -
  from assms(1) have none: "missing_errors m = []" by (simp add: missing_errors_Nil)
  from assms(1) have "\<not> lacks m ''Cg''" "\<not> lacks m ''Wg''" "\<not> lacks m ''Hg''"
    by (simp_all add: primaryCodes_def)
  then have tc: "truthy chest" and tw: "truthy waist" and th: "truthy hip"
    using assms(2,3,4) by (auto intro: present_truthy)
  have conf: "Chest_not_larger \<notin> set (confidence_warnings m)" "Hip_not_larger \<notin> set (confidence_warnings m)"
    using confidence_warnings_only_low [of _ m] by auto
  have "(Chest_not_larger \<in> set (warnings (validateMeasurements m))) = (\<not> num_less waist chest)"
    using conf tc tw assms(2,3)
    by (simp add: warnings_validate plausibility_warnings_set not_larger_def number_not_less_iff)
  moreover have "(Hip_not_larger \<in> set (warnings (validateMeasurements m))) = (\<not> num_less waist hip)"
    using conf th tw assms(3,4)
    by (simp add: warnings_validate plausibility_warnings_set not_larger_def number_not_less_iff)
  moreover have "valid (validateMeasurements m)" "errors (validateMeasurements m) = []"
    using none by (simp_all add: valid_validate errors_validate)
  ultimately show ?thesis by simp
qed

theorem ratio_violation_is_warning_witness:
  "list_all (\<lambda>code. \<not> lacks wg_250 code) primaryCodes \<and>
   value_of wg_250 ''Cg'' = Some (Fin (1025/10)) \<and>
   value_of wg_250 ''Wg'' = Some (Fin 250) \<and>
   value_of wg_250 ''Hg'' = Some (Fin (985/10)) \<and>
   \<not> num_less (Fin 250) (Fin (1025/10)) \<and> \<not> num_less (Fin 250) (Fin (985/10)) \<and>
   Chest_not_larger \<in> set (warnings (validateMeasurements wg_250)) \<and>
   Hip_not_larger \<in> set (warnings (validateMeasurements wg_250)) \<and>
   Chest_not_larger \<notin> set (errors (validateMeasurements wg_250)) \<and>
   Hip_not_larger \<notin> set (errors (validateMeasurements wg_250)) \<and>
   errors (validateMeasurements wg_250) = [] \<and>
   valid (validateMeasurements wg_250)"
proof -
  have p: "\<forall>code \<in> set primaryCodes. \<not> lacks wg_250 code"
    by (simp add: primaryCodes_def lacks_def wg_250_def sample_defs)
  have c: "value_of wg_250 ''Cg'' = Some (Fin (1025/10))"
    and w: "value_of wg_250 ''Wg'' = Some (Fin 250)"
    and h: "value_of wg_250 ''Hg'' = Some (Fin (985/10))"
    by (simp_all add: value_of_def wg_250_def sample_defs)
  show ?thesis
    using ratio_violation_is_warning [OF p c w h] p c w h by (simp add: list_all_iff)
qed

lemma num_le_090_truthy: "num_le (Fin (9/10)) c \<Longrightarrow> truthy c"
  by (cases c) auto

lemma grade_eyeson_of: "grade (eyeson_of (code, data)) = grade_of_confidence (pf_confidence data)"
  using num_le_090_truthy
  by (auto simp: eyeson_of_def grade_of_confidence_def Let_def split: option.splits)

text \<open>
  Claim C9 says that two measurements of the same code get the same grade. Two \<open>Cg\<close>
  measurements of the same value, one with confidence 0.95 and one with 0.89, are displayed
  under the same name with the grades P0 and P1.
\<close>

theorem grade_differs_counterexample:
  "map name (transformToEyeson [(''Cg'', entry (1025/10) (95/100))]) =
     map name (transformToEyeson [(''Cg'', entry (1025/10) (89/100))]) \<and>
   map grade (transformToEyeson [(''Cg'', entry (1025/10) (95/100))]) = [P0] \<and>
   map grade (transformToEyeson [(''Cg'', entry (1025/10) (89/100))]) = [P1]"
  by (simp add: transformToEyeson_def eyeson_of_def entry_def Let_def)

text \<open>
  Claim C9, as the code has it: the grade that \<open>transformToEyeson\<close> assigns is a function
  of the confidence alone, P0 when the confidence is at least 0.9 and P1 otherwise (also
  when there is none), whatever the code and the value.
\<close>

theorem grade_follows_confidence:
  "map grade (transformToEyeson m) = map (\<lambda>(code, data). grade_of_confidence (pf_confidence data)) m"
  by (induction m) (auto simp: transformToEyeson_def grade_eyeson_of)

text \<open>
  Claim C10 says that a measurement whose name is not in the code map is dropped and that
  the output holds only the 13 codes. The name \<open>constructor\<close> is not a key of
  \<open>MEASUREMENT_CODE_MAP\<close>, yet the lookup finds the inherited property and the measurement
  is stored under the text of that function, which is none of the codes.
\<close>

theorem constructor_name_not_dropped:
  "map_of MEASUREMENT_CODE_MAP (toLowerCase ''constructor'') = None \<and>
   transformToPatternFactory named_constructor =
     [(''function Object() { [native code] }'',
       \<lparr>pf_value = Fin 1, pf_unit = ''cm'', pf_confidence = Some (Fin (95/100))\<rparr>)] \<and>
   ''function Object() { [native code] }'' \<notin> set requiredCodes"
  by (simp add: named_constructor_def transformToPatternFactory_def pf_step_def get_property_def
      MEASUREMENT_CODE_MAP_def toLowerCase_def lower_char_def object_prototype_def
      native_function_def requiredCodes_def)



text \<open>
  What \<open>transformToPatternFactory\<close> does keep: every entry of the output has the unit
  \<open>cm\<close> and the value and confidence of an input measurement whose lower-cased name the
  lookup maps to the entry's key; and when no input name is an inherited property of the
  map, every key of the output is one of the 13 codes.
\<close>

lemma set_property_subset: "set (set_property k v ps) \<subseteq> insert (k, v) (set ps)"
  by (induction ps) auto

lemma pf_step_entries:
  assumes "(code, data) \<in> set (pf_step result m)"
  shows "(code, data) \<in> set result \<or>
         (get_property MEASUREMENT_CODE_MAP (toLowerCase (name m)) = Some code \<and>
          data = \<lparr>pf_value = value m, pf_unit = ''cm'', pf_confidence = Some (confidence m)\<rparr>)"
  using assms set_property_subset
  by (fastforce simp: pf_step_def split: option.splits if_splits)

lemma foldl_pf_step_entries:
  assumes "(code, data) \<in> set (foldl pf_step result ms)"
  shows "(code, data) \<in> set result \<or>
         (\<exists>m \<in> set ms.
            get_property MEASUREMENT_CODE_MAP (toLowerCase (name m)) = Some code \<and>
            data = \<lparr>pf_value = value m, pf_unit = ''cm'', pf_confidence = Some (confidence m)\<rparr>)"
  using assms
proof (induction ms arbitrary: result)
  case Nil
  then show ?case by simp
next
  case (Cons m ms)
  from Cons.IH [of "pf_step result m"] Cons.prems
  consider "(code, data) \<in> set (pf_step result m)"
    | "\<exists>m \<in> set ms.
         get_property MEASUREMENT_CODE_MAP (toLowerCase (name m)) = Some code \<and>
         data = \<lparr>pf_value = value m, pf_unit = ''cm'', pf_confidence = Some (confidence m)\<rparr>"
    by auto
  then show ?case
  proof cases
    case 1
    from pf_step_entries [OF this] show ?thesis by auto
  next
    case 2
    then show ?thesis by auto
  qed
qed

lemma transformToPatternFactory_entries:
  assumes "(code, data) \<in> set (transformToPatternFactory ms)"
  shows "pf_unit data = ''cm'' \<and>
         (\<exists>m \<in> set ms.
            get_property MEASUREMENT_CODE_MAP (toLowerCase (name m)) = Some code \<and>
            pf_value data = value m \<and> pf_confidence data = Some (confidence m))"
  using foldl_pf_step_entries [of code data "[]" ms] assms
  by (auto simp: transformToPatternFactory_def)

lemma own_codes_required: "map_of MEASUREMENT_CODE_MAP n = Some code \<Longrightarrow> code \<in> set requiredCodes"
  by (auto simp: MEASUREMENT_CODE_MAP_def requiredCodes_def split: if_splits)

lemma transformToPatternFactory_own_names:
  assumes "\<forall>m \<in> set ms. map_of object_prototype (toLowerCase (name m)) = None"
    and "(code, data) \<in> set (transformToPatternFactory ms)"
  shows "code \<in> set requiredCodes"
proof -
  from transformToPatternFactory_entries [OF assms(2)]
  obtain m where "m \<in> set ms" "get_property MEASUREMENT_CODE_MAP (toLowerCase (name m)) = Some code"
    by blast
  with assms(1) have "map_of MEASUREMENT_CODE_MAP (toLowerCase (name m)) = Some code"
    by (auto simp: get_property_def split: option.splits)
  then show ?thesis by (rule own_codes_required)
qed


section \<open>The engine's event log\<close>

lemma next_state_in_graph:
  assumes "next_state g s ev = Some s'"
  shows "(s, ev, s') \<in> set g"
proof -
  from assms have "((s, ev), s') \<in> set (map (\<lambda>(f, e, t). ((f, e), t)) g)"
    unfolding next_state_def by (rule map_of_SomeD)
  then show ?thesis by auto
qed

lemma target_in_graph:
  assumes "provides_review (graph eng)" and "target eng ord ev = Some s"
  shows "(order_state ord, ev, s) \<in> set (graph eng)"
proof -
  from assms(2) obtain s0 where n: "next_state (graph eng) (order_state ord) ev = Some s0"
    and s: "s = (if validation_failure ord s0 \<and> validation_attempts eng \<le> retry_count ord + 1
                 then MANUAL_REVIEW else s0)"
    by (auto simp: target_def split: option.splits if_splits)
  have r: "(order_state ord, ev, s0) \<in> set (graph eng)" using n by (rule next_state_in_graph)
  show ?thesis
  proof (cases "validation_failure ord s0 \<and> validation_attempts eng \<le> retry_count ord + 1")
    case False
    then have "s = s0" using s by (simp only: if_False simp_thms)
    with r show ?thesis by simp
  next
    case True
    then have s': "s = MANUAL_REVIEW" using s by (simp only: if_True simp_thms)
    from True have v: "order_state ord = VALIDATION" "s0 = PROCESSING"
      by (simp_all add: validation_failure_def)
    with r have "(VALIDATION, ev, PROCESSING) \<in> set (graph eng)" by simp
    with assms(1) have "(VALIDATION, ev, MANUAL_REVIEW) \<in> set (graph eng)"
      by (simp add: provides_review_def)
    with s' v show ?thesis by simp
  qed
qed

lemma legal_walk_append:
  "legal_walk g s (rs @ [r]) =
     (legal_walk g s rs \<and> from_state r = walk_end s rs \<and>
      (from_state r, trigger r, to_state r) \<in> set g)"
  by (induction rs arbitrary: s) auto

lemma walk_end_append: "walk_end s (rs @ [r]) = to_state r"
  by (induction rs arbitrary: s) auto

lemma legal_walk_first: "legal_walk g s rs \<Longrightarrow> rs \<noteq> [] \<Longrightarrow> from_state (hd rs) = s"
  by (cases rs) auto

lemma legal_walk_links:
  "legal_walk g s rs \<Longrightarrow> Suc i < length rs \<Longrightarrow> to_state (rs ! i) = from_state (rs ! Suc i)"
proof (induction rs arbitrary: s i)
  case Nil
  then show ?case by simp
next
  case (Cons r rs)
  show ?case
  proof (cases i)
    case 0
    with Cons.prems show ?thesis by (cases rs) auto
  next
    case (Suc k)
    with Cons.prems Cons.IH [of "to_state r" k] show ?thesis by simp
  qed
qed

lemma legal_walk_edges:
  "legal_walk g s rs \<Longrightarrow> r \<in> set rs \<Longrightarrow> (from_state r, trigger r, to_state r) \<in> set g"
  by (induction rs arbitrary: s) auto

lemma order_inv_empty: "order_inv (empty_engine g n) oid"
  by (simp add: order_inv_def empty_engine_def history_def)

lemma order_inv_create:
  assumes "order_inv eng x"
  shows "order_inv (create_order eng oid prio now) x"
proof (cases "orders eng oid")
  case (Some a)
  with assms show ?thesis by (simp add: create_order_def)
next
  case None
  show ?thesis
  proof (cases "x = oid")
    case True
    with None assms show ?thesis by (simp add: order_inv_def create_order_def history_def)
  next
    case False
    with None assms show ?thesis
      by (auto simp: order_inv_def create_order_def history_def split: option.splits)
  qed
qed

lemma transition_unchanged:
  assumes "\<not> (\<exists>ord s. orders eng oid = Some ord \<and> (ev, pl) \<notin> set (applied ord) \<and>
                 target eng ord ev = Some s)"
  shows "snd (transition eng oid ev pl now) = eng"
  using assms by (auto simp: transition_def split: option.splits)

lemma transition_moves:
  assumes "orders eng oid = Some ord" and "(ev, pl) \<notin> set (applied ord)"
    and "target eng ord ev = Some s"
  shows "transition eng oid ev pl now =
           (Inr s,
            eng\<lparr>orders := (orders eng)(oid \<mapsto>
                   ord\<lparr>order_state := s, applied := applied ord @ [(ev, pl)],
                       retry_count := retries_after ord s, updated_at := now\<rparr>),
                event_log := event_log eng @
                   [\<lparr>rec_order_id = oid, from_state = order_state ord, to_state = s,
                     trigger = ev, timestamp = now, metadata = pl\<rparr>]\<rparr>)"
  using assms by (simp add: transition_def)

lemma order_inv_transition:
  assumes "order_inv eng x" and "provides_review (graph eng)"
  shows "order_inv (snd (transition eng oid ev pl now)) x"
proof (cases "\<exists>ord s. orders eng oid = Some ord \<and> (ev, pl) \<notin> set (applied ord) \<and>
                 target eng ord ev = Some s")
  case False
  then have "snd (transition eng oid ev pl now) = eng" by (rule transition_unchanged)
  with assms show ?thesis by simp
next
  case True
  then obtain ord s where o: "orders eng oid = Some ord" and a: "(ev, pl) \<notin> set (applied ord)"
    and n: "target eng ord ev = Some s" by blast
  have m: "(order_state ord, ev, s) \<in> set (graph eng)"
    using assms(2) n by (rule target_in_graph)
  note t = transition_moves [OF o a n, of now]
  show ?thesis
  proof (cases "x = oid")
    case True
    with assms(1) o m show ?thesis
      by (auto simp: t order_inv_def history_def legal_walk_append walk_end_append)
  next
    case False
    with assms(1) show ?thesis
      by (auto simp: t order_inv_def history_def split: option.splits)
  qed
qed

lemma graph_call: "graph (apply_call eng c) = graph eng"
  by (cases c) (auto simp: create_order_def transition_def split: option.splits)

lemma graph_run: "graph (run_calls eng cs) = graph eng"
  unfolding run_calls_def
  by (induction cs arbitrary: eng) (simp_all add: graph_call)

lemma order_inv_call:
  "order_inv eng x \<Longrightarrow> provides_review (graph eng) \<Longrightarrow> order_inv (apply_call eng c) x"
  by (cases c) (simp_all add: order_inv_create order_inv_transition)

lemma order_inv_run:
  "order_inv eng x \<Longrightarrow> provides_review (graph eng) \<Longrightarrow> order_inv (run_calls eng cs) x"
  unfolding run_calls_def
  by (induction cs arbitrary: eng) (simp_all add: order_inv_call graph_call)

lemma history_is_walk:
  assumes "provides_review g"
  shows "legal_walk g CREATED (history (run_calls (empty_engine g n) cs) oid)"
proof -
  have g: "graph (empty_engine g n) = g" by (simp add: empty_engine_def)
  have "order_inv (run_calls (empty_engine g n) cs) oid"
    using order_inv_empty assms by (intro order_inv_run) (simp_all add: g)
  moreover have "graph (run_calls (empty_engine g n) cs) = g"
    by (simp add: graph_run g)
  ultimately show ?thesis
    by (auto simp: order_inv_def split: option.splits)
qed

lemma state_graph_provides_review: "provides_review state_graph"
  by (auto simp: provides_review_def state_graph_def spec_transitions_def transition_matrix_def)

lemma timeout_history:
  "history (run_calls (empty_engine state_graph 3) timeout_calls) ''SDS-20260201-0001-A'' =
     [\<lparr>rec_order_id = ''SDS-20260201-0001-A'', from_state = CREATED, to_state = RECEIVED,
       trigger = ''POST /orders'', timestamp = 1, metadata = ''{}''\<rparr>,
      \<lparr>rec_order_id = ''SDS-20260201-0001-A'', from_state = RECEIVED, to_state = CANCELLED,
       trigger = ''SLA_TIMEOUT'', timestamp = 90000, metadata = ''24h''\<rparr>]"
  by (simp add: run_calls_def timeout_calls_def empty_engine_def create_order_def transition_def
      target_def validation_failure_def retries_after_def next_state_def state_graph_def
      spec_transitions_def transition_matrix_def all_states_def terminal_def history_def)

text \<open>
  Claim C4 says that every record of a history is an edge of the transition matrix. An order
  left in \<open>RECEIVED\<close> is moved by the SLA timeout into \<open>CANCELLED\<close>, as sections 4.4 and 8
  require, and its history then holds a record that is no row of the matrix, which has no
  row from \<open>RECEIVED\<close> to \<open>CANCELLED\<close> under any trigger.
\<close>

theorem timeout_leaves_matrix_counterexample:
  "history (run_calls (empty_engine state_graph 3) timeout_calls) ''SDS-20260201-0001-A'' =
     [\<lparr>rec_order_id = ''SDS-20260201-0001-A'', from_state = CREATED, to_state = RECEIVED,
       trigger = ''POST /orders'', timestamp = 1, metadata = ''{}''\<rparr>,
      \<lparr>rec_order_id = ''SDS-20260201-0001-A'', from_state = RECEIVED, to_state = CANCELLED,
       trigger = ''SLA_TIMEOUT'', timestamp = 90000, metadata = ''24h''\<rparr>] \<and>
   (RECEIVED, ''SLA_TIMEOUT'', CANCELLED) \<notin> set transition_matrix \<and>
   \<not> list_ex (\<lambda>(f, e, t). f = RECEIVED \<and> t = CANCELLED) transition_matrix"
  by (simp add: timeout_history) (simp add: transition_matrix_def)

text \<open>
  Claim C4, as the spec's own transitions have it: for every run of calls on an engine that
  starts empty with the state graph, and for every order, the order's transition history is
  a legal walk: its first record leaves the initial state \<open>CREATED\<close>, each record's
  \<open>to_state\<close> is the next record's \<open>from_state\<close>, and every record is a row of the
  transition matrix or one of the transitions that the spec adds to it (cancel from a
  pre-terminal state, the SLA timeout of \<open>RECEIVED\<close>, the moves into manual review).
\<close>

theorem history_legal_walk:
  "(history (run_calls (empty_engine state_graph n) cs) oid \<noteq> [] \<longrightarrow>
      from_state (hd (history (run_calls (empty_engine state_graph n) cs) oid)) = CREATED) \<and>
   (\<forall>i. Suc i < length (history (run_calls (empty_engine state_graph n) cs) oid) \<longrightarrow>
      to_state (history (run_calls (empty_engine state_graph n) cs) oid ! i) =
      from_state (history (run_calls (empty_engine state_graph n) cs) oid ! Suc i)) \<and>
   (\<forall>r \<in> set (history (run_calls (empty_engine state_graph n) cs) oid).
      (from_state r, trigger r, to_state r) \<in> set transition_matrix \<union> set spec_transitions)"
proof -
  have w: "legal_walk state_graph CREATED (history (run_calls (empty_engine state_graph n) cs) oid)"
    using state_graph_provides_review by (rule history_is_walk)
  have "\<forall>r \<in> set (history (run_calls (empty_engine state_graph n) cs) oid).
      (from_state r, trigger r, to_state r) \<in> set transition_matrix \<union> set spec_transitions"
    using legal_walk_edges [OF w] by (simp add: state_graph_def)
  then show ?thesis
    using legal_walk_first [OF w] legal_walk_links [OF w] by blast
qed

lemma review_history:
  "map (\<lambda>r. (from_state r, trigger r, to_state r))
     (history (run_calls (empty_engine state_graph 3) review_calls) ''SDS-20260201-0002-A'') =
     [(CREATED, ''POST /orders'', RECEIVED),
      (RECEIVED, ''Manual Entry'', PROCESSING),
      (PROCESSING, ''Start Validation'', VALIDATION),
      (VALIDATION, ''Validation Fail'', PROCESSING),
      (PROCESSING, ''Start Validation'', VALIDATION),
      (VALIDATION, ''Validation Fail'', PROCESSING),
      (PROCESSING, ''Start Validation'', VALIDATION),
      (VALIDATION, ''Validation Fail'', MANUAL_REVIEW),
      (MANUAL_REVIEW, ''Cancel'', CANCELLED)]"
  by (simp add: run_calls_def review_calls_def empty_engine_def create_order_def transition_def
      target_def validation_failure_def retries_after_def next_state_def state_graph_def
      spec_transitions_def transition_matrix_def all_states_def terminal_def history_def)

theorem history_legal_walk_witness:
  "map (\<lambda>r. (from_state r, trigger r, to_state r))
     (history (run_calls (empty_engine state_graph 3) review_calls) ''SDS-20260201-0002-A'') =
     [(CREATED, ''POST /orders'', RECEIVED),
      (RECEIVED, ''Manual Entry'', PROCESSING),
      (PROCESSING, ''Start Validation'', VALIDATION),
      (VALIDATION, ''Validation Fail'', PROCESSING),
      (PROCESSING, ''Start Validation'', VALIDATION),
      (VALIDATION, ''Validation Fail'', PROCESSING),
      (PROCESSING, ''Start Validation'', VALIDATION),
      (VALIDATION, ''Validation Fail'', MANUAL_REVIEW),
      (MANUAL_REVIEW, ''Cancel'', CANCELLED)] \<and>
   from_state (hd (history (run_calls (empty_engine state_graph 3) review_calls)
     ''SDS-20260201-0002-A'')) = CREATED \<and>
   to_state (history (run_calls (empty_engine state_graph 3) review_calls)
     ''SDS-20260201-0002-A'' ! 7) =
   from_state (history (run_calls (empty_engine state_graph 3) review_calls)
     ''SDS-20260201-0002-A'' ! Suc 7) \<and>
   list_all (\<lambda>r. (from_state r, trigger r, to_state r) \<in> set transition_matrix \<union> set spec_transitions)
     (history (run_calls (empty_engine state_graph 3) review_calls) ''SDS-20260201-0002-A'')"
proof -
  let ?h = "history (run_calls (empty_engine state_graph 3) review_calls) ''SDS-20260201-0002-A''"
  have l: "length ?h = 9" using arg_cong [OF review_history, of length] by simp
  then have ne: "?h \<noteq> []" and i: "Suc 7 < length ?h" by auto
  from history_legal_walk [of 3 review_calls "''SDS-20260201-0002-A''"] ne i
  show ?thesis by (simp add: review_history list_all_iff)
qed

section \<open>Replayed transitions\<close>

lemma applied_kept_call:
  assumes "orders eng oid = Some ord" and "k \<in> set (applied ord)"
  shows "\<exists>ord'. orders (apply_call eng c) oid = Some ord' \<and> k \<in> set (applied ord')"
proof (cases c)
  case (Create x prio now)
  with assms show ?thesis by (auto simp: create_order_def split: option.splits)
next
  case (Transition x ev pl now)
  with assms show ?thesis by (auto simp: transition_def split: option.splits)
qed

lemma applied_kept_run:
  assumes "orders eng oid = Some ord" and "k \<in> set (applied ord)"
  shows "\<exists>ord'. orders (run_calls eng cs) oid = Some ord' \<and> k \<in> set (applied ord')"
  using assms
proof (induction cs arbitrary: eng ord)
  case Nil
  then show ?case by (simp add: run_calls_def)
next
  case (Cons c cs)
  from applied_kept_call [OF Cons.prems, of c]
  obtain ord' where "orders (apply_call eng c) oid = Some ord'" "k \<in> set (applied ord')" by blast
  from Cons.IH [OF this] show ?case by (simp add: run_calls_def)
qed

lemma transition_replayed:
  assumes "orders eng oid = Some ord" and "(ev, pl) \<in> set (applied ord)"
  shows "transition eng oid ev pl now = (Inr (order_state ord), eng)"
  using assms by (simp add: transition_def)

text \<open>
  Claim C7: when a call for an order, an event and a payload succeeds for the first time in
  state \<open>s\<close>, it appends exactly one record to the event log; the same call made again
  returns \<open>s\<close> and leaves the engine as it is, so no second record is appended; and made
  again after any further calls it still changes nothing and returns the order's current
  state.
\<close>

theorem replayed_transition_is_noop:
  assumes "orders eng oid = Some ord"
    and "(ev, pl) \<notin> set (applied ord)"
    and "transition eng oid ev pl t1 = (Inr s, eng1)"
  shows "event_log eng1 = event_log eng @
           [\<lparr>rec_order_id = oid, from_state = order_state ord, to_state = s, trigger = ev,
             timestamp = t1, metadata = pl\<rparr>] \<and>
         transition eng1 oid ev pl t2 = (Inr s, eng1) \<and>
         (\<exists>ord'. orders (run_calls eng1 cs) oid = Some ord' \<and>
                 transition (run_calls eng1 cs) oid ev pl t3 =
                   (Inr (order_state ord'), run_calls eng1 cs))"
proof -
  from assms obtain n: "target eng ord ev = Some s"
    by (auto simp: transition_def split: option.splits)
  define ord1 where
    "ord1 = ord\<lparr>order_state := s, applied := applied ord @ [(ev, pl)],
                retry_count := retries_after ord s, updated_at := t1\<rparr>"
  from assms(3) have e1: "eng1 =
      eng\<lparr>orders := (orders eng)(oid \<mapsto> ord1),
          event_log := event_log eng @
             [\<lparr>rec_order_id = oid, from_state = order_state ord, to_state = s,
               trigger = ev, timestamp = t1, metadata = pl\<rparr>]\<rparr>"
    by (simp add: transition_moves [OF assms(1,2) n] ord1_def)
  have o1: "orders eng1 oid = Some ord1" and a1: "(ev, pl) \<in> set (applied ord1)"
    and s1: "order_state ord1 = s"
    by (simp_all add: e1 ord1_def)
  have "transition eng1 oid ev pl t2 = (Inr s, eng1)"
    using transition_replayed [OF o1 a1] s1 by simp
  moreover from applied_kept_run [OF o1 a1, of cs]
  obtain ord' where o': "orders (run_calls eng1 cs) oid = Some ord'"
    and a': "(ev, pl) \<in> set (applied ord')" by blast
  have "\<exists>ord'. orders (run_calls eng1 cs) oid = Some ord' \<and>
          transition (run_calls eng1 cs) oid ev pl t3 = (Inr (order_state ord'), run_calls eng1 cs)"
    using transition_replayed [OF o' a'] o' by blast
  ultimately show ?thesis by (simp add: e1)
qed

lemmas engine_defs =
  run_calls_def empty_engine_def create_order_def transition_def target_def
  validation_failure_def retries_after_def next_state_def state_graph_def
  spec_transitions_def transition_matrix_def all_states_def terminal_def

lemma received_engine_order: "orders received_engine ''SDS-20260201-0001-A'' = Some received_order"
  by (simp add: received_engine_def received_order_def engine_defs)

lemma received_engine_config:
  "graph received_engine = state_graph" "validation_attempts received_engine = 3"
  by (simp_all add: received_engine_def received_order_def engine_defs)

lemma received_engine_scan:
  "fst (transition received_engine ''SDS-20260201-0001-A'' ''EYESON Scan'' ''scan-1'' 2) = Inr SCAN_RECEIVED"
  by (simp add: transition_def target_def validation_failure_def received_engine_order
      received_engine_config received_order_def next_state_def state_graph_def
      transition_matrix_def)

theorem replayed_transition_is_noop_witness:
  "orders received_engine ''SDS-20260201-0001-A'' = Some received_order \<and>
   (''EYESON Scan'', ''scan-1'') \<notin> set (applied received_order) \<and>
   fst (transition received_engine ''SDS-20260201-0001-A'' ''EYESON Scan'' ''scan-1'' 2) =
     Inr SCAN_RECEIVED \<and>
   event_log (snd (transition received_engine ''SDS-20260201-0001-A'' ''EYESON Scan'' ''scan-1'' 2)) =
     event_log received_engine @
       [\<lparr>rec_order_id = ''SDS-20260201-0001-A'', from_state = RECEIVED, to_state = SCAN_RECEIVED,
         trigger = ''EYESON Scan'', timestamp = 2, metadata = ''scan-1''\<rparr>] \<and>
   transition (snd (transition received_engine ''SDS-20260201-0001-A'' ''EYESON Scan'' ''scan-1'' 2))
       ''SDS-20260201-0001-A'' ''EYESON Scan'' ''scan-1'' 3 =
     (Inr SCAN_RECEIVED,
      snd (transition received_engine ''SDS-20260201-0001-A'' ''EYESON Scan'' ''scan-1'' 2))"
proof -
  have a: "(''EYESON Scan'', ''scan-1'') \<notin> set (applied received_order)"
    by (simp add: received_order_def)
  have t: "transition received_engine ''SDS-20260201-0001-A'' ''EYESON Scan'' ''scan-1'' 2 =
      (Inr SCAN_RECEIVED,
       snd (transition received_engine ''SDS-20260201-0001-A'' ''EYESON Scan'' ''scan-1'' 2))"
    using received_engine_scan by (metis prod.collapse)
  have r: "order_state received_order = RECEIVED" by (simp add: received_order_def)
  show ?thesis
    using replayed_transition_is_noop [OF received_engine_order a t, of 3 "[]" 3]
      received_engine_order a received_engine_scan r
    by simp
qed

section \<open>Priority order of the queue\<close>


























section \<open>Replay of the write-ahead log\<close>

lemma replay_snoc: "replay (w @ [e]) = apply_entry (replay w) e"
  by (simp add: replay_def)

lemma job_ids_update_job:
  assumes "\<And>k. job_id (f k) = job_id k"
  shows "map job_id (update_job jid f js) = map job_id js"
  using assms by (induction js) (simp_all add: update_job_def)

lemma job_id_set_update_job:
  assumes "\<And>k. job_id (f k) = job_id k"
  shows "job_id ` set (update_job jid f js) = job_id ` set js"
  using job_ids_update_job [OF assms, of jid js] by (metis set_map)

lemma job_ids_apply_entry: "job_id ` set js \<subseteq> job_id ` set (apply_entry js e)"
  by (cases "operation e") (auto simp: apply_entry_def job_id_set_update_job)

lemma find_job_Some: "find_job js jid = Some j \<Longrightarrow> j \<in> set js \<and> job_id j = jid"
  by (auto simp: find_job_def find_Some_iff)

lemma writes_none: "writes q q []"
  by (simp add: writes_def)

lemma enqueue_writes:
  fixes q :: queue
  shows "\<exists>es. writes q (snd (enqueue q oid pl prio)) es"
  by (rule exI [of _ "[wal_entry q (length (wal q))
        (ENQUEUE \<lparr>job_id = length (wal q), job_order_id = oid, payload = pl, job_priority = prio,
                  attempt_count = 0, status = Pending, enqueued_at = length (wal q)\<rparr>) pl]"])
     (simp add: writes_def enqueue_def Let_def apply_entry_def wal_entry_def entry_ok_def)

lemma dequeue_writes:
  fixes q :: queue
  shows "\<exists>es. writes q (snd (dequeue q)) es"
proof (cases "next_job (jobs q)")
  case None
  then show ?thesis using writes_none [of q] by (auto simp: dequeue_def)
next
  case (Some j)
  then have "j \<in> set (jobs q)" using next_job_Some by blast
  then have "job_id j \<in> job_id ` set (update_job (job_id j) (\<lambda>k. k\<lparr>status := In_flight\<rparr>) (jobs q))"
    by (simp add: job_id_set_update_job)
  with Some show ?thesis
    by (intro exI [of _ "[wal_entry q (job_id j) DEQUEUE (payload j)]"])
       (simp add: writes_def dequeue_def apply_entry_def wal_entry_def entry_ok_def)
qed

lemma ack_writes:
  fixes q :: queue
  shows "\<exists>es. writes q (ack q jid) es"
proof (cases "\<exists>j. find_job (jobs q) jid = Some j \<and> status j = In_flight")
  case False
  then have "ack q jid = q" by (auto simp: ack_def split: option.splits)
  then show ?thesis using writes_none [of q] by auto
next
  case True
  then obtain j where j: "find_job (jobs q) jid = Some j" "status j = In_flight" by blast
  then have "jid \<in> job_id ` set (jobs q)" using find_job_Some by blast
  with j show ?thesis
    by (intro exI [of _ "[wal_entry q jid ACK (payload j)]"])
       (simp add: writes_def ack_def apply_entry_def wal_entry_def entry_ok_def
          job_id_set_update_job)
qed

lemma fail_writes:
  fixes q :: queue
  shows "\<exists>es. writes q (fail q jid) es"
proof (cases "\<exists>j. find_job (jobs q) jid = Some j \<and> status j = In_flight")
  case False
  then have "fail q jid = q" by (auto simp: fail_def split: option.splits)
  then show ?thesis using writes_none [of q] by auto
next
  case True
  then obtain j where j: "find_job (jobs q) jid = Some j" "status j = In_flight" by blast
  then have i: "jid \<in> job_id ` set (jobs q)" using find_job_Some by blast
  show ?thesis
  proof (cases "attempt_count j + 1 < max_attempts q")
    case True
    with i j show ?thesis
      by (intro exI [of _ "[wal_entry q jid (RETRY (attempt_count j + 1)) (payload j)]"])
         (simp add: writes_def fail_def apply_entry_def wal_entry_def entry_ok_def
            job_id_set_update_job)
  next
    case False
    with i j show ?thesis
      by (intro exI [of _ "[wal_entry q jid DEAD_LETTER (payload j)]"])
         (simp add: writes_def fail_def apply_entry_def wal_entry_def entry_ok_def
            job_id_set_update_job)
  qed
qed

lemma cancel_writes:
  fixes q :: queue
  shows "\<exists>es. writes q (cancel_request q jid) es"
proof (cases "\<exists>j. find_job (jobs q) jid = Some j \<and> (status j = Pending \<or> status j = In_flight)")
  case False
  then have "cancel_request q jid = q" by (auto simp: cancel_request_def split: option.splits)
  then show ?thesis using writes_none [of q] by auto
next
  case True
  then obtain j where j: "find_job (jobs q) jid = Some j" "status j = Pending \<or> status j = In_flight"
    by blast
  then have "jid \<in> job_id ` set (jobs q)" using find_job_Some by blast
  with j show ?thesis
    by (intro exI [of _ "[wal_entry q jid CANCEL_REQUEST (payload j)]"])
       (auto simp: writes_def cancel_request_def apply_entry_def wal_entry_def entry_ok_def)
qed

lemma entry_ok_mono:
  assumes "entry_ok js e" and "job_id ` set js \<subseteq> job_id ` set js'"
  shows "entry_ok js' e"
  using assms by (auto simp: entry_ok_def)

lemma reset_twice: "reset_in_flight (reset_in_flight j) = reset_in_flight j"
  by (simp add: reset_in_flight_def)

lemma job_id_reset: "job_id (reset_in_flight j) = job_id j"
  by (simp add: reset_in_flight_def)

lemma job_ids_reset: "map job_id (map reset_in_flight js) = map job_id js"
  by (simp add: job_id_reset)

lemma job_id_set_reset: "job_id ` set (map reset_in_flight js) = job_id ` set js"
  using job_ids_reset [of js] by (metis set_map)

lemma status_update_reset: "(reset_in_flight j)\<lparr>status := st\<rparr> = j\<lparr>status := st\<rparr>"
  by (simp add: reset_in_flight_def)

lemma retry_update_reset:
  "(reset_in_flight j)\<lparr>attempt_count := n, status := st\<rparr> = j\<lparr>attempt_count := n, status := st\<rparr>"
  by (simp add: reset_in_flight_def)

lemma reset_eq:
  assumes "reset_in_flight r = reset_in_flight k"
  shows "job_id r = job_id k" and "r\<lparr>status := st\<rparr> = k\<lparr>status := st\<rparr>"
    and "r\<lparr>attempt_count := n, status := st\<rparr> = k\<lparr>attempt_count := n, status := st\<rparr>"
proof -
  show "job_id r = job_id k" using arg_cong [OF assms, of job_id] by (simp add: job_id_reset)
  show "r\<lparr>status := st\<rparr> = k\<lparr>status := st\<rparr>"
    using arg_cong [OF assms, of "\<lambda>j. j\<lparr>status := st\<rparr>"]
    by (simp only: status_update_reset)
  show "r\<lparr>attempt_count := n, status := st\<rparr> = k\<lparr>attempt_count := n, status := st\<rparr>"
    using arg_cong [OF assms, of "\<lambda>j. j\<lparr>attempt_count := n, status := st\<rparr>"]
    by (simp only: retry_update_reset)
qed

lemma reset_update_job:
  assumes "map reset_in_flight rs = map reset_in_flight js"
    and "\<And>r k. reset_in_flight r = reset_in_flight k \<Longrightarrow> f r = f k"
  shows "map reset_in_flight (update_job jid f rs) = map reset_in_flight (update_job jid f js)"
  using assms(1)
proof (induction rs arbitrary: js)
  case Nil
  then show ?case by (simp add: update_job_def)
next
  case (Cons r rs)
  then obtain k ks where js: "js = k # ks" and h: "reset_in_flight r = reset_in_flight k"
    and t: "map reset_in_flight rs = map reset_in_flight ks" by (cases js) auto
  have "map reset_in_flight (update_job jid f rs) = map reset_in_flight (update_job jid f ks)"
    using t by (rule Cons.IH)
  moreover have "reset_in_flight (if job_id r = jid then f r else r) =
                 reset_in_flight (if job_id k = jid then f k else k)"
    using h assms(2) [OF h] reset_eq(1) [OF h] by simp
  ultimately show ?case by (simp add: js update_job_def)
qed

lemma reset_apply_entry:
  assumes "map reset_in_flight rs = map reset_in_flight js"
  shows "map reset_in_flight (apply_entry rs e) = map reset_in_flight (apply_entry js e)"
proof (cases "operation e")
  case (ENQUEUE j)
  with assms show ?thesis by (simp add: apply_entry_def)
next
  case DEQUEUE
  then show ?thesis using reset_update_job [OF assms reset_eq(2)] by (simp add: apply_entry_def)
next
  case ACK
  then show ?thesis using reset_update_job [OF assms reset_eq(2)] by (simp add: apply_entry_def)
next
  case (RETRY n)
  then show ?thesis using reset_update_job [OF assms reset_eq(3)] by (simp add: apply_entry_def)
next
  case DEAD_LETTER
  then show ?thesis using reset_update_job [OF assms reset_eq(2)] by (simp add: apply_entry_def)
next
  case CANCEL_REQUEST
  with assms show ?thesis by (simp add: apply_entry_def)
qed

lemma last_of_snoc:
  "(case xs @ [x] of [] \<Rightarrow> None | e # es \<Rightarrow> Some (f (last (e # es)))) = Some (f x)"
  by (cases xs) simp_all

lemma last_operation_snoc:
  "last_operation (w @ [e]) jid =
     (if wal_job_id e = jid \<and> operation e \<noteq> CANCEL_REQUEST then Some (operation e)
      else last_operation w jid)"
  by (simp add: last_operation_def last_of_snoc)

lemma ids_apply_entry:
  assumes "\<forall>j \<in> set js. job_id j < n" and "distinct (map job_id js)"
    and "\<forall>j. operation e = ENQUEUE j \<longrightarrow> job_id j = n"
  shows "\<forall>j \<in> set (apply_entry js e). job_id j < Suc n"
    and "distinct (map job_id (apply_entry js e))"
proof -
  have m: "map job_id (apply_entry js e) = map job_id js" if "\<not> (\<exists>j. operation e = ENQUEUE j)"
    using that by (cases "operation e") (auto simp: apply_entry_def job_ids_update_job)
  show "\<forall>j \<in> set (apply_entry js e). job_id j < Suc n"
  proof (cases "\<exists>j. operation e = ENQUEUE j")
    case True
    with assms show ?thesis by (auto simp: apply_entry_def less_Suc_eq)
  next
    case False
    then have "job_id ` set (apply_entry js e) = job_id ` set js" using m by (metis set_map)
    with assms(1) show ?thesis by (metis imageE imageI less_SucI)
  qed
  show "distinct (map job_id (apply_entry js e))"
  proof (cases "\<exists>j. operation e = ENQUEUE j")
    case True
    then obtain j0 where j0: "operation e = ENQUEUE j0" by blast
    with assms(3) have "job_id j0 = n" by simp
    with assms(1) have "job_id j0 \<notin> job_id ` set js" by auto
    with assms(2) j0 show ?thesis by (simp add: apply_entry_def)
  next
    case False
    with m assms(2) show ?thesis by simp
  qed
qed

lemma reflects_apply_entry:
  assumes "\<forall>j \<in> set js. job_id j < length w"
    and "\<forall>j \<in> set js. \<exists>oper. last_operation w (job_id j) = Some oper \<and> reflects oper j"
    and "\<forall>j. operation e = ENQUEUE j \<longrightarrow>
           job_id j = length w \<and> wal_job_id e = job_id j \<and> status j = Pending"
  shows "\<forall>j \<in> set (apply_entry js e).
           \<exists>oper. last_operation (w @ [e]) (job_id j) = Some oper \<and> reflects oper j"
proof (cases "operation e")
  case (ENQUEUE j0)
  with assms show ?thesis by (auto simp: apply_entry_def last_operation_snoc)
next
  case DEQUEUE
  with assms(2) show ?thesis by (auto simp: apply_entry_def last_operation_snoc update_job_def)
next
  case ACK
  with assms(2) show ?thesis by (auto simp: apply_entry_def last_operation_snoc update_job_def)
next
  case (RETRY n)
  with assms(2) show ?thesis by (auto simp: apply_entry_def last_operation_snoc update_job_def)
next
  case DEAD_LETTER
  with assms(2) show ?thesis by (auto simp: apply_entry_def last_operation_snoc update_job_def)
next
  case CANCEL_REQUEST
  with assms(2) show ?thesis by (auto simp: apply_entry_def last_operation_snoc)
qed

lemma reflects_reset: "reflects oper j \<Longrightarrow> reflects oper (reset_in_flight j)"
  by (cases oper) (auto simp: reset_in_flight_def)

lemma reflects_restored:
  assumes "reflects oper j"
  shows "restored_status oper = Some (status (reset_in_flight j))"
    and "oper = RETRY n \<Longrightarrow> attempt_count (reset_in_flight j) = n"
  using assms by (cases oper; auto simp: reset_in_flight_def)+

lemma queue_inv_entry:
  assumes "queue_inv q" and "wal q' = wal q @ [e]" and "jobs q' = apply_entry (jobs q) e"
    and "entry_ok (jobs q') e" and "sequence_no e = length (wal q)"
    and "\<forall>j. operation e = ENQUEUE j \<longrightarrow> job_id j = length (wal q)"
  shows "queue_inv q'"
proof -
  from assms(1) have r: "map reset_in_flight (replay (wal q)) = map reset_in_flight (jobs q)"
    and old: "\<forall>e \<in> set (wal q). entry_ok (jobs q) e"
    and n: "map sequence_no (wal q) = [0..<length (wal q)]"
    and lt: "\<forall>j \<in> set (jobs q). job_id j < length (wal q)"
    and d: "distinct (map job_id (jobs q))"
    and l: "\<forall>j \<in> set (jobs q). \<exists>oper. last_operation (wal q) (job_id j) = Some oper \<and> reflects oper j"
    by (auto simp: queue_inv_def)
  have "map reset_in_flight (replay (wal q')) = map reset_in_flight (jobs q')"
    using reset_apply_entry [OF r, of e] by (simp add: assms(2,3) replay_snoc)
  moreover have "\<forall>e' \<in> set (wal q'). entry_ok (jobs q') e'"
  proof
    fix e' assume "e' \<in> set (wal q')"
    then consider "e' \<in> set (wal q)" | "e' = e" using assms(2) by auto
    then show "entry_ok (jobs q') e'"
    proof cases
      case 1
      have "job_id ` set (jobs q) \<subseteq> job_id ` set (jobs q')"
        using job_ids_apply_entry [of "jobs q" e] by (simp add: assms(3))
      with old 1 show ?thesis using entry_ok_mono by blast
    next
      case 2
      with assms(4) show ?thesis by simp
    qed
  qed
  moreover have "map sequence_no (wal q') = [0..<length (wal q')]"
    by (simp add: assms(2,5) n)
  moreover have "\<forall>j \<in> set (jobs q'). job_id j < length (wal q')"
    using ids_apply_entry(1) [OF lt d assms(6)] by (simp add: assms(2,3))
  moreover have "distinct (map job_id (jobs q'))"
    using ids_apply_entry(2) [OF lt d assms(6)] by (simp add: assms(3))
  moreover have "\<forall>j \<in> set (jobs q').
      \<exists>oper. last_operation (wal q') (job_id j) = Some oper \<and> reflects oper j"
  proof -
    have "\<forall>j. operation e = ENQUEUE j \<longrightarrow>
           job_id j = length (wal q) \<and> wal_job_id e = job_id j \<and> status j = Pending"
      using assms(4,6) by (auto simp: entry_ok_def)
    from reflects_apply_entry [OF lt l this] show ?thesis by (simp add: assms(2,3))
  qed
  ultimately show ?thesis by (simp add: queue_inv_def)
qed

lemma queue_inv_writes:
  assumes "queue_inv q" and "writes q q' es"
  shows "queue_inv q'"
proof (cases es)
  case Nil
  with assms(2) have "wal q' = wal q" "jobs q' = jobs q" by (simp_all add: writes_def)
  with assms(1) show ?thesis by (simp add: queue_inv_def)
next
  case (Cons e es')
  with assms(2) have es: "es = [e]" by (simp add: writes_def)
  from assms(2) have "wal q' = wal q @ [e]" and "jobs q' = apply_entry (jobs q) e"
    and "entry_ok (jobs q') e" and "sequence_no e = length (wal q)"
    and "\<forall>j. operation e = ENQUEUE j \<longrightarrow> job_id j = length (wal q)"
    unfolding es by (auto simp: writes_def)
  with assms(1) show ?thesis by (rule queue_inv_entry)
qed

lemma recover_jobs:
  assumes "queue_inv q"
  shows "jobs (recover m ck (wal q)) = map reset_in_flight (jobs q)"
  using assms by (simp add: recover_def rebuild_def queue_inv_def)

lemma queue_inv_recover:
  assumes "queue_inv q"
  shows "queue_inv (recover m ck (wal q))"
proof -
  from assms have r: "map reset_in_flight (replay (wal q)) = map reset_in_flight (jobs q)"
    and old: "\<forall>e \<in> set (wal q). entry_ok (jobs q) e"
    and n: "map sequence_no (wal q) = [0..<length (wal q)]"
    and lt: "\<forall>j \<in> set (jobs q). job_id j < length (wal q)"
    and d: "distinct (map job_id (jobs q))"
    and l: "\<forall>j \<in> set (jobs q). \<exists>oper. last_operation (wal q) (job_id j) = Some oper \<and> reflects oper j"
    by (auto simp: queue_inv_def)
  let ?q = "recover m ck (wal q)"
  have w: "wal ?q = wal q" by (simp add: recover_def)
  have j: "jobs ?q = map reset_in_flight (jobs q)" using assms by (rule recover_jobs)
  have "map reset_in_flight (replay (wal ?q)) = map reset_in_flight (jobs ?q)"
    by (simp add: w j r reset_twice)
  moreover have "\<forall>e \<in> set (wal ?q). entry_ok (jobs ?q) e"
    using old by (simp add: w j entry_ok_def job_id_set_reset del: set_map)
  moreover have "map sequence_no (wal ?q) = [0..<length (wal ?q)]"
    using n by (simp add: w)
  moreover have "\<forall>j \<in> set (jobs ?q). job_id j < length (wal ?q)"
    using lt by (simp add: w j job_id_reset)
  moreover have "distinct (map job_id (jobs ?q))"
    using d by (simp only: j job_ids_reset)
  moreover have "\<forall>j \<in> set (jobs ?q).
      \<exists>oper. last_operation (wal ?q) (job_id j) = Some oper \<and> reflects oper j"
    using l by (auto simp: w j job_id_reset intro: reflects_reset)
  ultimately show ?thesis by (simp only: queue_inv_def simp_thms)
qed

lemma queue_inv_step:
  fixes q :: queue
  assumes "queue_inv q"
  shows "queue_inv (step q c)"
proof -
  have "(\<exists>es. writes q (step q c) es) \<or> c = Crash"
    by (cases c) (simp_all add: enqueue_writes dequeue_writes ack_writes fail_writes cancel_writes)
  then show ?thesis
  proof
    assume "\<exists>es. writes q (step q c) es"
    then obtain es where "writes q (step q c) es" by blast
    with assms show ?thesis by (rule queue_inv_writes)
  next
    assume "c = Crash"
    then show ?thesis using queue_inv_recover [OF assms] by simp
  qed
qed

lemma queue_inv_empty: "queue_inv (empty_queue m ck)"
  by (simp add: queue_inv_def empty_queue_def replay_def)

lemma queue_inv_run:
  fixes q :: queue
  shows "queue_inv q \<Longrightarrow> queue_inv (run_queue q cs)"
  unfolding run_queue_def
proof (induction cs arbitrary: q)
  case Nil
  then show ?case by simp
next
  case (Cons c cs)
  from Cons.prems have "queue_inv (step q c)" by (rule queue_inv_step)
  then show ?case using Cons.IH by simp
qed

lemma carries_update_job:
  assumes "j \<in> set js" and "carries j j0" and "\<And>k. carries (f k) j0 = carries k j0"
  shows "\<exists>j \<in> set (update_job jid f js). carries j j0"
proof -
  have "(if job_id j = jid then f j else j) \<in> set (update_job jid f js)"
    unfolding update_job_def set_map using assms(1) by (rule image_eqI [OF refl])
  moreover have "carries (if job_id j = jid then f j else j) j0"
    using assms(2,3) by simp
  ultimately show ?thesis by blast
qed

lemma carries_apply_entry:
  assumes "\<exists>j \<in> set js. carries j j0"
  shows "\<exists>j \<in> set (apply_entry js e). carries j j0"
proof -
  from assms obtain j where j: "j \<in> set js" "carries j j0" by blast
  have st: "carries (k\<lparr>status := s\<rparr>) j0 = carries k j0"
    and at: "carries (k\<lparr>attempt_count := n, status := s\<rparr>) j0 = carries k j0" for k s n
    by (simp_all add: carries_def)
  show ?thesis
  proof (cases "operation e")
    case (ENQUEUE j')
    with j show ?thesis by (auto simp: apply_entry_def)
  next
    case DEQUEUE
    then show ?thesis using carries_update_job [OF j st] by (simp add: apply_entry_def)
  next
    case ACK
    then show ?thesis using carries_update_job [OF j st] by (simp add: apply_entry_def)
  next
    case (RETRY n)
    then show ?thesis using carries_update_job [OF j at] by (simp add: apply_entry_def)
  next
    case DEAD_LETTER
    then show ?thesis using carries_update_job [OF j st] by (simp add: apply_entry_def)
  next
    case CANCEL_REQUEST
    with j show ?thesis by (auto simp: apply_entry_def)
  qed
qed

lemma carries_replay:
  assumes "e \<in> set w" and "operation e = ENQUEUE j0"
  shows "\<exists>j \<in> set (replay w). carries j j0"
  using assms(1)
proof (induction w rule: rev_induct)
  case Nil
  then show ?case by simp
next
  case (snoc x w)
  show ?case
  proof (cases "x = e")
    case True
    with assms(2) show ?thesis by (simp add: replay_snoc apply_entry_def carries_def)
  next
    case False
    with snoc have "\<exists>j \<in> set (replay w). carries j j0" by simp
    then show ?thesis unfolding replay_snoc by (rule carries_apply_entry)
  qed
qed

lemma carries_reset: "carries j j0 \<Longrightarrow> carries (reset_in_flight j) j0"
  by (simp add: carries_def reset_in_flight_def)

lemma awaiting_apply_entry:
  assumes "awaiting jid js"
    and "wal_job_id e = jid \<longrightarrow> operation e \<noteq> ACK \<and> operation e \<noteq> DEAD_LETTER"
    and "\<forall>j. operation e = ENQUEUE j \<longrightarrow> status j = Pending"
  shows "awaiting jid (apply_entry js e)"
proof (cases "wal_job_id e = jid")
  case False
  with assms(1,3) show ?thesis
    by (cases "operation e") (auto simp: apply_entry_def awaiting_def update_job_def)
next
  case True
  with assms show ?thesis
    by (cases "operation e") (auto simp: apply_entry_def awaiting_def update_job_def)
qed

lemma awaiting_foldl:
  assumes "awaiting jid js"
    and "\<forall>e \<in> set es. wal_job_id e = jid \<longrightarrow> operation e \<noteq> ACK \<and> operation e \<noteq> DEAD_LETTER"
    and "\<forall>e \<in> set es. \<forall>j. operation e = ENQUEUE j \<longrightarrow> status j = Pending"
  shows "awaiting jid (foldl apply_entry js es)"
  using assms
proof (induction es arbitrary: js)
  case Nil
  then show ?case by simp
next
  case (Cons e es)
  have "awaiting jid (apply_entry js e)"
    using Cons.prems by (intro awaiting_apply_entry) auto
  then show ?case using Cons.prems by (auto intro: Cons.IH)
qed

lemma awaiting_after_dequeue:
  assumes "operation e = DEQUEUE"
  shows "awaiting (wal_job_id e) (apply_entry js e)"
  using assms by (auto simp: apply_entry_def awaiting_def update_job_def)

lemma awaiting_reset:
  assumes "awaiting jid js" and "j \<in> set (map reset_in_flight js)" and "job_id j = jid"
  shows "status j = Pending"
  using assms by (auto simp: awaiting_def reset_in_flight_def split: if_splits)

text \<open>
  Claim C5: take any log that the queue has written, over any run of its operations from an
  empty queue, the process killed and recovered any number of times on the way. Recovery
  reads the log alone and keeps it. The rebuilt jobs are the jobs as they stood in memory,
  each field as it was, but for the status of a job in flight, which is pending again. The
  log is in sequence order. The rebuilt jobs have distinct identifiers; every job that an
  entry of the log names is among them; every job that an entry enqueues is among them with
  its order, payload, priority and enqueue sequence number. Every rebuilt job has the status
  that its last recorded operation restores: pending after an enqueue, a dequeue or a retry
  (with the attempt count of the retry), done after an acknowledgement, dead-lettered after
  a dead letter. In particular a job with a \<open>DEQUEUE\<close> entry that no \<open>ACK\<close> or
  \<open>DEAD_LETTER\<close> entry of the job follows is pending again.
\<close>

theorem replay_restores_jobs:
  assumes "q = run_queue (empty_queue m ck) cs"
  shows "wal (recover m ck (wal q)) = wal q \<and>
         jobs (recover m ck (wal q)) =
           map (\<lambda>j. j\<lparr>status := (if status j = In_flight then Pending else status j)\<rparr>) (jobs q) \<and>
         map sequence_no (wal q) = [0..<length (wal q)] \<and>
         distinct (map job_id (jobs (recover m ck (wal q)))) \<and>
         (\<forall>e \<in> set (wal q). \<exists>j \<in> set (jobs (recover m ck (wal q))). job_id j = wal_job_id e) \<and>
         (\<forall>e \<in> set (wal q). \<forall>j0. operation e = ENQUEUE j0 \<longrightarrow>
            (\<exists>j \<in> set (jobs (recover m ck (wal q))). carries j j0)) \<and>
         (\<forall>j \<in> set (jobs (recover m ck (wal q))). \<exists>oper.
            last_operation (wal q) (job_id j) = Some oper \<and>
            restored_status oper = Some (status j) \<and>
            (\<forall>n. oper = RETRY n \<longrightarrow> attempt_count j = n)) \<and>
         (\<forall>w1 e w2.
            wal q = w1 @ e # w2 \<and> operation e = DEQUEUE \<and>
            (\<forall>e' \<in> set w2. wal_job_id e' = wal_job_id e \<longrightarrow>
               operation e' \<noteq> ACK \<and> operation e' \<noteq> DEAD_LETTER) \<longrightarrow>
            (\<forall>j \<in> set (jobs (recover m ck (wal q))). job_id j = wal_job_id e \<longrightarrow> status j = Pending))"
proof -
  let ?r = "recover m ck (wal q)"
  have inv: "queue_inv q"
    unfolding assms using queue_inv_empty by (rule queue_inv_run)
  then have ok: "\<forall>e \<in> set (wal q). entry_ok (jobs q) e"
    and n: "map sequence_no (wal q) = [0..<length (wal q)]"
    and d: "distinct (map job_id (jobs q))"
    and l: "\<forall>j \<in> set (jobs q). \<exists>oper. last_operation (wal q) (job_id j) = Some oper \<and> reflects oper j"
    by (auto simp: queue_inv_def)
  have w: "wal ?r = wal q" by (simp add: recover_def)
  have rep: "jobs ?r = map reset_in_flight (replay (wal q))" by (simp add: recover_def rebuild_def)
  have rec: "jobs ?r = map reset_in_flight (jobs q)" using inv by (rule recover_jobs)
  have "reset_in_flight = (\<lambda>j. j\<lparr>status := (if status j = In_flight then Pending else status j)\<rparr>)"
    by (rule ext) (simp add: reset_in_flight_def)
  with rec have same: "jobs ?r =
      map (\<lambda>j. j\<lparr>status := (if status j = In_flight then Pending else status j)\<rparr>) (jobs q)"
    by simp
  have dist: "distinct (map job_id (jobs ?r))" using d by (simp only: rec job_ids_reset)
  have kept: "\<forall>e \<in> set (wal q). \<exists>j \<in> set (jobs ?r). job_id j = wal_job_id e"
  proof
    fix e assume "e \<in> set (wal q)"
    with ok have "wal_job_id e \<in> job_id ` set (jobs q)" by (simp add: entry_ok_def)
    then have "wal_job_id e \<in> job_id ` set (jobs ?r)"
      by (simp only: rec job_id_set_reset)
    then show "\<exists>j \<in> set (jobs ?r). job_id j = wal_job_id e" by auto
  qed
  have whole: "\<forall>e \<in> set (wal q). \<forall>j0. operation e = ENQUEUE j0 \<longrightarrow>
      (\<exists>j \<in> set (jobs ?r). carries j j0)"
  proof (intro ballI allI impI)
    fix e j0 assume "e \<in> set (wal q)" "operation e = ENQUEUE j0"
    then obtain j where "j \<in> set (replay (wal q))" "carries j j0" using carries_replay by blast
    then have "reset_in_flight j \<in> set (jobs ?r)" "carries (reset_in_flight j) j0"
      by (simp_all add: rep carries_reset)
    then show "\<exists>j \<in> set (jobs ?r). carries j j0" by blast
  qed
  have last: "\<forall>j \<in> set (jobs ?r). \<exists>oper.
      last_operation (wal q) (job_id j) = Some oper \<and> restored_status oper = Some (status j) \<and>
      (\<forall>n. oper = RETRY n \<longrightarrow> attempt_count j = n)"
  proof
    fix j assume "j \<in> set (jobs ?r)"
    then obtain k where k: "k \<in> set (jobs q)" and j: "j = reset_in_flight k"
      unfolding rec by auto
    from l k obtain oper where o: "last_operation (wal q) (job_id k) = Some oper" "reflects oper k"
      by blast
    have "last_operation (wal q) (job_id j) = Some oper" using o(1) by (simp add: j job_id_reset)
    moreover have "restored_status oper = Some (status j)"
      using reflects_restored(1) [OF o(2)] by (simp add: j)
    moreover have "\<forall>n. oper = RETRY n \<longrightarrow> attempt_count j = n"
      using reflects_restored(2) [OF o(2)] by (simp add: j)
    ultimately show "\<exists>oper. last_operation (wal q) (job_id j) = Some oper \<and>
        restored_status oper = Some (status j) \<and> (\<forall>n. oper = RETRY n \<longrightarrow> attempt_count j = n)"
      by blast
  qed
  have again: "\<forall>j \<in> set (jobs ?r). job_id j = wal_job_id e \<longrightarrow> status j = Pending"
    if s: "wal q = w1 @ e # w2" and dq: "operation e = DEQUEUE"
      and t: "\<forall>e' \<in> set w2. wal_job_id e' = wal_job_id e \<longrightarrow>
                operation e' \<noteq> ACK \<and> operation e' \<noteq> DEAD_LETTER"
    for w1 e w2
  proof -
    have pend: "\<forall>e' \<in> set w2. \<forall>j. operation e' = ENQUEUE j \<longrightarrow> status j = Pending"
      using ok s by (auto simp: entry_ok_def)
    have "replay (wal q) = foldl apply_entry (apply_entry (replay w1) e) w2"
      by (simp add: s replay_def)
    moreover have "awaiting (wal_job_id e) (foldl apply_entry (apply_entry (replay w1) e) w2)"
      using awaiting_after_dequeue [OF dq] t pend by (rule awaiting_foldl)
    ultimately have "awaiting (wal_job_id e) (replay (wal q))" by simp
    then show ?thesis using awaiting_reset unfolding rep by blast
  qed
  from w same n dist kept whole last again show ?thesis by blast
qed

lemma crash_queue_wal:
  "map (\<lambda>e. (sequence_no e, wal_job_id e)) (wal crash_queue) =
     [(0, 0), (1, 1), (2, 1), (3, 0), (4, 1), (5, 0), (6, 0), (7, 7), (8, 0)]"
  "map operation (take 5 (drop 2 (wal crash_queue))) = [DEQUEUE, DEQUEUE, ACK, DEQUEUE, RETRY 1]"
  "map operation (drop 8 (wal crash_queue)) = [DEQUEUE]"
  "jobs crash_queue =
     [\<lparr>job_id = 0, job_order_id = ''SDS-20260201-0001-A'', payload = ''cut-1'',
       job_priority = Normal, attempt_count = 1, status = In_flight, enqueued_at = 0\<rparr>,
      \<lparr>job_id = 1, job_order_id = ''SDS-20260201-0002-A'', payload = ''cut-2'',
       job_priority = Rush, attempt_count = 0, status = Done, enqueued_at = 1\<rparr>,
      \<lparr>job_id = 7, job_order_id = ''SDS-20260201-0003-A'', payload = ''cut-3'',
       job_priority = Low, attempt_count = 0, status = Pending, enqueued_at = 7\<rparr>]"
  by (simp_all add: crash_queue_def crash_commands_def run_queue_def empty_queue_def enqueue_def
      wal_entry_def Let_def next_job_def is_pending_def job_key_def dequeue_def ack_def fail_def
      update_job_def find_job_def recover_def rebuild_def replay_def apply_entry_def
      reset_in_flight_def)

theorem replay_restores_jobs_witness:
  "crash_queue = run_queue (empty_queue 3 length) crash_commands \<and>
   map (\<lambda>e. (sequence_no e, wal_job_id e)) (wal crash_queue) =
     [(0, 0), (1, 1), (2, 1), (3, 0), (4, 1), (5, 0), (6, 0), (7, 7), (8, 0)] \<and>
   map operation (take 5 (drop 2 (wal crash_queue))) = [DEQUEUE, DEQUEUE, ACK, DEQUEUE, RETRY 1] \<and>
   map operation (drop 8 (wal crash_queue)) = [DEQUEUE] \<and>
   jobs crash_queue =
     [\<lparr>job_id = 0, job_order_id = ''SDS-20260201-0001-A'', payload = ''cut-1'',
       job_priority = Normal, attempt_count = 1, status = In_flight, enqueued_at = 0\<rparr>,
      \<lparr>job_id = 1, job_order_id = ''SDS-20260201-0002-A'', payload = ''cut-2'',
       job_priority = Rush, attempt_count = 0, status = Done, enqueued_at = 1\<rparr>,
      \<lparr>job_id = 7, job_order_id = ''SDS-20260201-0003-A'', payload = ''cut-3'',
       job_priority = Low, attempt_count = 0, status = Pending, enqueued_at = 7\<rparr>] \<and>
   jobs (recover 3 length (wal crash_queue)) =
     [\<lparr>job_id = 0, job_order_id = ''SDS-20260201-0001-A'', payload = ''cut-1'',
       job_priority = Normal, attempt_count = 1, status = Pending, enqueued_at = 0\<rparr>,
      \<lparr>job_id = 1, job_order_id = ''SDS-20260201-0002-A'', payload = ''cut-2'',
       job_priority = Rush, attempt_count = 0, status = Done, enqueued_at = 1\<rparr>,
      \<lparr>job_id = 7, job_order_id = ''SDS-20260201-0003-A'', payload = ''cut-3'',
       job_priority = Low, attempt_count = 0, status = Pending, enqueued_at = 7\<rparr>]"
proof -
  have "jobs (recover 3 length (wal crash_queue)) =
      map (\<lambda>j. j\<lparr>status := (if status j = In_flight then Pending else status j)\<rparr>) (jobs crash_queue)"
    using replay_restores_jobs [OF crash_queue_def] by simp
  then have r: "jobs (recover 3 length (wal crash_queue)) =
     [\<lparr>job_id = 0, job_order_id = ''SDS-20260201-0001-A'', payload = ''cut-1'',
       job_priority = Normal, attempt_count = 1, status = Pending, enqueued_at = 0\<rparr>,
      \<lparr>job_id = 1, job_order_id = ''SDS-20260201-0002-A'', payload = ''cut-2'',
       job_priority = Rush, attempt_count = 0, status = Done, enqueued_at = 1\<rparr>,
      \<lparr>job_id = 7, job_order_id = ''SDS-20260201-0003-A'', payload = ''cut-3'',
       job_priority = Low, attempt_count = 0, status = Pending, enqueued_at = 7\<rparr>]"
    by (simp only: crash_queue_wal) simp
  show ?thesis
    by (intro conjI crash_queue_def crash_queue_wal r)
qed

end
